theory Spec2Isabelle
  imports Main "HOL-Library.Monad_Syntax"
begin

text \<open>
  The firmware of a dsPIC board that samples a magnetometer over SPI, averages the
  readings, and reports them over a UART with frames \<^verbatim>\<open>$TYPE,PAYLOAD*\<close>; the same link
  carries the command that sets the rate of the report. This theory embeds
  \<^verbatim>\<open>parser.c\<close> and \<^verbatim>\<open>main.c\<close> as functions and proves the properties that the
  specification states about them. A function that may leave an array returns an
  \<open>option\<close>, and \<open>None\<close> is undefined behaviour.
\<close>

section \<open>C arithmetic of the target\<close>

text \<open>
  The firmware is built for a 16-bit dsPIC (\<^verbatim>\<open>xc.h\<close>, the \<^verbatim>\<open>U1STAbits\<close> and
  \<^verbatim>\<open>SPI1STATbits\<close> registers): \<^verbatim>\<open>int\<close> has 16 bits, which is why \<^verbatim>\<open>main.c\<close>
  keeps the sums of readings in \<^verbatim>\<open>long\<close>. Values of type \<^verbatim>\<open>int\<close> are modelled as
  HOL integers, with the two's-complement wrap-around written out by \<open>int16\<close> wherever
  the code computes a value that may leave the range. Array indices and scheduler
  counters are C ints that the code only resets to 0 and increments below a small
  limit; they are modelled as naturals.
\<close>

definition int16 :: "int \<Rightarrow> int" where
  "int16 x = (x + 32768) mod 65536 - 32768"

text \<open>Integer division of C truncates towards zero.\<close>

definition c_div :: "int \<Rightarrow> int \<Rightarrow> int" where
  "c_div a b = sgn a * sgn b * (\<bar>a\<bar> div \<bar>b\<bar>)"

text \<open>A plain \<^verbatim>\<open>char\<close> is signed on this target; this is its value once promoted to int.\<close>

definition char_val :: "char \<Rightarrow> int" where
  "char_val c = (let n = int (of_char c) in if n < 128 then n else n - 256)"

abbreviation NUL :: char where
  "NUL \<equiv> CHR 0x00"

text \<open>
  An array is a list whose length is the declared size. A store outside the array is
  undefined behaviour in C: the model returns \<open>None\<close> there.
\<close>

definition store :: "char list \<Rightarrow> nat \<Rightarrow> char \<Rightarrow> char list option" where
  "store xs i c = (if i < length xs then Some (xs[i := c]) else None)"

section \<open>The protocol parser (parser.c)\<close>

text \<open>
  \<^verbatim>\<open>parser.h\<close> is not among the sources. The three states and the two return values
  are its macros; the sizes of \<^verbatim>\<open>msg_type\<close> and \<^verbatim>\<open>msg_payload\<close> are the lengths of
  the two lists of a state, so every theorem holds for whatever sizes the header declares.
\<close>

datatype state_id = STATE_DOLLAR | STATE_TYPE | STATE_PAYLOAD

datatype parse_status = NO_MESSAGE | NEW_MESSAGE

record parser_state =
  state :: state_id
  msg_type :: "char list"
  msg_payload :: "char list"
  index_type :: nat
  index_payload :: nat

text \<open>
  \<^verbatim>\<open>parse_byte\<close> (parser.c, lines 3 to 44): one branch of the \<^verbatim>\<open>switch\<close> for each state,
  the tests of each branch in the order of the source. It returns the new state and the
  return value of the call.
\<close>

definition parse_byte :: "parser_state \<Rightarrow> char \<Rightarrow> (parser_state \<times> parse_status) option" where
  "parse_byte ps byte =
    (case state ps of
       STATE_DOLLAR \<Rightarrow>
         if byte = CHR ''$''
         then Some (ps\<lparr>state := STATE_TYPE, index_type := 0\<rparr>, NO_MESSAGE)
         else Some (ps, NO_MESSAGE)
     | STATE_TYPE \<Rightarrow>
         if byte = CHR '',''
         then do {
           mt \<leftarrow> store (msg_type ps) (index_type ps) NUL;
           Some (ps\<lparr>state := STATE_PAYLOAD, msg_type := mt, index_payload := 0\<rparr>, NO_MESSAGE)
         }
         else if index_type ps = 6
         then Some (ps\<lparr>state := STATE_DOLLAR, index_type := 0\<rparr>, NO_MESSAGE)
         else if byte = CHR ''*''
         then do {
           mt \<leftarrow> store (msg_type ps) (index_type ps) NUL;
           mp \<leftarrow> store (msg_payload ps) 0 NUL;
           Some (ps\<lparr>state := STATE_DOLLAR, msg_type := mt, msg_payload := mp\<rparr>, NEW_MESSAGE)
         }
         else do {
           mt \<leftarrow> store (msg_type ps) (index_type ps) byte;
           Some (ps\<lparr>msg_type := mt, index_type := index_type ps + 1\<rparr>, NO_MESSAGE)
         }
     | STATE_PAYLOAD \<Rightarrow>
         if byte = CHR ''*''
         then do {
           mp \<leftarrow> store (msg_payload ps) (index_payload ps) NUL;
           Some (ps\<lparr>state := STATE_DOLLAR, msg_payload := mp\<rparr>, NEW_MESSAGE)
         }
         else if index_payload ps = 100
         then Some (ps\<lparr>state := STATE_DOLLAR, index_payload := 0\<rparr>, NO_MESSAGE)
         else do {
           mp \<leftarrow> store (msg_payload ps) (index_payload ps) byte;
           Some (ps\<lparr>msg_payload := mp, index_payload := index_payload ps + 1\<rparr>, NO_MESSAGE)
         })"

text \<open>
  The array stores that one call of \<^verbatim>\<open>parse_byte\<close> performs, in order: the same
  branches, keeping only the assignments to \<^verbatim>\<open>msg_type[i]\<close> and \<^verbatim>\<open>msg_payload[i]\<close>.
\<close>

datatype array_store = Type_store nat char | Payload_store nat char

definition parse_byte_stores :: "parser_state \<Rightarrow> char \<Rightarrow> array_store list" where
  "parse_byte_stores ps byte =
    (case state ps of
       STATE_DOLLAR \<Rightarrow> []
     | STATE_TYPE \<Rightarrow>
         if byte = CHR '','' then [Type_store (index_type ps) NUL]
         else if index_type ps = 6 then []
         else if byte = CHR ''*'' then [Type_store (index_type ps) NUL, Payload_store 0 NUL]
         else [Type_store (index_type ps) byte]
     | STATE_PAYLOAD \<Rightarrow>
         if byte = CHR ''*'' then [Payload_store (index_payload ps) NUL]
         else if index_payload ps = 100 then []
         else [Payload_store (index_payload ps) byte])"

fun store_in_bounds :: "parser_state \<Rightarrow> array_store \<Rightarrow> bool" where
  "store_in_bounds ps (Type_store i c) = (i < length (msg_type ps))"
| "store_in_bounds ps (Payload_store i c) = (i < length (msg_payload ps))"

text \<open>Feeding a byte sequence one byte at a time, collecting the return values.\<close>

fun feed :: "parser_state \<Rightarrow> string \<Rightarrow> (parser_state \<times> parse_status list) option" where
  "feed ps [] = Some (ps, [])"
| "feed ps (b # bs) = do {
     (ps1, st) \<leftarrow> parse_byte ps b;
     (ps2, sts) \<leftarrow> feed ps1 bs;
     Some (ps2, st # sts)
   }"

text \<open>
  The C string held in an array: the characters before the first NUL. Reading an
  array without a NUL runs past its end, which is \<open>None\<close>.
\<close>

definition c_str :: "char list \<Rightarrow> string option" where
  "c_str xs = (if NUL \<in> set xs then Some (takeWhile (\<lambda>c. c \<noteq> NUL) xs) else None)"

text \<open>
  \<^verbatim>\<open>extract_integer\<close> (parser.c, lines 46 to 63) reads the array from its start. The loop stops at a comma or
  a NUL; it runs past the end of an array that holds neither.
\<close>

fun extract_loop :: "char list \<Rightarrow> int \<Rightarrow> int option" where
  "extract_loop [] number = None"
| "extract_loop (c # cs) number =
     (if c \<noteq> CHR '','' \<and> c \<noteq> NUL
      then extract_loop cs (int16 (int16 (number * 10) + (char_val c - char_val CHR ''0'')))
      else Some number)"

definition extract_integer :: "char list \<Rightarrow> int option" where
  "extract_integer str =
    (case str of
       [] \<Rightarrow> None
     | c # cs \<Rightarrow>
         if c = CHR ''-'' then map_option (\<lambda>number. int16 (- 1 * number)) (extract_loop cs 0)
         else if c = CHR ''+'' then map_option (\<lambda>number. int16 (1 * number)) (extract_loop cs 0)
         else map_option (\<lambda>number. int16 (1 * number)) (extract_loop str 0))"

text \<open>The parser as \<^verbatim>\<open>main\<close> declares it: \<^verbatim>\<open>parser_state pstate = {.state = STATE_DOLLAR}\<close>,
  every other member zero, for arrays of \<open>n\<close> and \<open>m\<close> elements.\<close>

definition parser_init :: "nat \<Rightarrow> nat \<Rightarrow> parser_state" where
  "parser_init n m =
    \<lparr>state = STATE_DOLLAR, msg_type = replicate n NUL, msg_payload = replicate m NUL,
     index_type = 0, index_payload = 0\<rparr>"

subsection \<open>Frames of the wire protocol\<close>

text \<open>
  A type token holds no separator, no terminator and, being text, no NUL; a payload
  holds no terminator and no NUL. These are the frames \<^verbatim>\<open>$TYPE,PAYLOAD*\<close> and
  \<^verbatim>\<open>$TYPE*\<close> of the specification.
\<close>

definition type_token :: "string \<Rightarrow> bool" where
  "type_token T \<longleftrightarrow> CHR '','' \<notin> set T \<and> CHR ''*'' \<notin> set T \<and> NUL \<notin> set T"

definition payload_text :: "string \<Rightarrow> bool" where
  "payload_text P \<longleftrightarrow> CHR ''*'' \<notin> set P \<and> NUL \<notin> set P"

definition frame :: "string \<Rightarrow> string \<Rightarrow> string" where
  "frame T P = CHR ''$'' # T @ CHR '','' # P @ [CHR ''*'']"

definition frame_no_payload :: "string \<Rightarrow> string" where
  "frame_no_payload T = CHR ''$'' # T @ [CHR ''*'']"

text \<open>The value of a string of decimal digits, most significant digit first.\<close>

definition digit_char :: "char \<Rightarrow> bool" where
  "digit_char c \<longleftrightarrow> c \<in> set ''0123456789''"

definition decimal_value :: "string \<Rightarrow> int" where
  "decimal_value ds = foldl (\<lambda>n c. 10 * n + (int (of_char c) - 48)) 0 ds"

section \<open>The ring buffers and the serial interrupts (main.c)\<close>

text \<open>
  \<^verbatim>\<open>uart.h\<close> is not among the sources; \<^verbatim>\<open>struct circular_buffer\<close> has the members
  that \<^verbatim>\<open>main.c\<close> uses. The read and write indices only ever take values
  \<^verbatim>\<open>(index + 1) % LEN\<close>.
\<close>

record circular_buffer =
  len :: nat
  buff :: "char list"
  read :: nat
  "write" :: nat

definition INPUT_BUFF_LEN :: nat where [simp]:
  "INPUT_BUFF_LEN = 10"

definition OUTPUT_BUFF_LEN :: nat where [simp]:
  "OUTPUT_BUFF_LEN = 48"

text \<open>A load outside the array is undefined behaviour, as a store is.\<close>

definition load :: "char list \<Rightarrow> nat \<Rightarrow> char option" where
  "load xs i = (if i < length xs then Some (xs ! i) else None)"

text \<open>One round of the loop of \<^verbatim>\<open>_U1RXInterrupt\<close> (lines 262 to 274), for the character read from
  \<^verbatim>\<open>U1RXREG\<close>; \<open>rx_full\<close> is the negation of the test it makes.\<close>

definition rx_full :: "circular_buffer \<Rightarrow> bool" where
  "rx_full cb \<longleftrightarrow> (write cb + 1) mod INPUT_BUFF_LEN = read cb"

definition rx_char :: "circular_buffer \<Rightarrow> char \<Rightarrow> circular_buffer option" where
  "rx_char cb read_char =
    (let new_write_index = (write cb + 1) mod INPUT_BUFF_LEN in
     if new_write_index \<noteq> read cb
     then do {
       b \<leftarrow> store (buff cb) (write cb) read_char;
       Some (cb\<lparr>buff := b, write := new_write_index\<rparr>)
     }
     else Some cb)"

text \<open>The receive interrupt, for the characters that the hardware holds while
  \<^verbatim>\<open>URXDA\<close> is set.\<close>

fun U1RXInterrupt :: "circular_buffer \<Rightarrow> string \<Rightarrow> circular_buffer option" where
  "U1RXInterrupt cb [] = Some cb"
| "U1RXInterrupt cb (c # cs) = do { cb' \<leftarrow> rx_char cb c; U1RXInterrupt cb' cs }"

text \<open>The consumer side, as the main loop advances it (line 241):
  \<^verbatim>\<open>read = (read + 1) % INPUT_BUFF_LEN\<close>.\<close>

definition input_consume :: "circular_buffer \<Rightarrow> circular_buffer" where
  "input_consume cb = cb\<lparr>read := (read cb + 1) mod INPUT_BUFF_LEN\<rparr>"

text \<open>The transmit interrupt (lines 248 to 260), with room for \<open>n\<close> characters in the hardware
  (\<^verbatim>\<open>UTXBF\<close> is set once they are written); it returns the characters written to
  \<^verbatim>\<open>U1TXREG\<close>.\<close>

fun U1TXInterrupt :: "circular_buffer \<Rightarrow> nat \<Rightarrow> (circular_buffer \<times> string) option" where
  "U1TXInterrupt cb 0 = Some (cb, [])"
| "U1TXInterrupt cb (Suc n) =
     (if read cb \<noteq> write cb
      then do {
        c \<leftarrow> load (buff cb) (read cb);
        (cb', sent) \<leftarrow> U1TXInterrupt (cb\<lparr>read := (read cb + 1) mod OUTPUT_BUFF_LEN\<rparr>) n;
        Some (cb', c # sent)
      }
      else Some (cb, []))"

text \<open>
  Modelled from the spec: \<^verbatim>\<open>print_to_buff\<close> is defined in \<^verbatim>\<open>uart.c\<close>, which is not
  among the sources. The specification (4.1, 4.7) has it push each byte of the message
  individually into the ring buffer, where a push on a full buffer is a no-op that drops
  the byte; full is when advancing the write index would make it equal the read index.
\<close>

definition try_push :: "circular_buffer \<Rightarrow> char \<Rightarrow> circular_buffer" where
  "try_push cb c =
    (let new_write_index = (write cb + 1) mod len cb in
     if new_write_index \<noteq> read cb
     then cb\<lparr>buff := (buff cb)[write cb := c], write := new_write_index\<rparr>
     else cb)"

text \<open>Modelled from the spec: \<^verbatim>\<open>print_to_buff\<close> itself, which pushes the bytes of
  the message in order (4.7), each with the push above.\<close>

definition print_to_buff :: "string \<Rightarrow> circular_buffer \<Rightarrow> circular_buffer" where
  "print_to_buff str cb = foldl try_push cb str"

text \<open>
  What a ring buffer holds: the bytes from the read index up to the write index, oldest
  first. A buffer is well formed when its array has \<open>len\<close> elements and both indices
  are below \<open>len\<close>.
\<close>

definition used :: "circular_buffer \<Rightarrow> nat" where
  "used cb = (if read cb \<le> write cb then write cb - read cb else write cb + len cb - read cb)"

definition queued :: "circular_buffer \<Rightarrow> string" where
  "queued cb = map (\<lambda>k. buff cb ! ((read cb + k) mod len cb)) [0..<used cb]"

definition rb_ok :: "circular_buffer \<Rightarrow> bool" where
  "rb_ok cb \<longleftrightarrow> 1 < len cb \<and> length (buff cb) = len cb \<and> read cb < len cb \<and> write cb < len cb"

text \<open>The two buffers as \<^verbatim>\<open>main.c\<close> defines them, zero-initialised.\<close>

definition UART_input_buff_init :: circular_buffer where
  "UART_input_buff_init =
    \<lparr>len = INPUT_BUFF_LEN, buff = replicate INPUT_BUFF_LEN NUL, read = 0, write = 0\<rparr>"

definition UART_output_buff_init :: circular_buffer where
  "UART_output_buff_init =
    \<lparr>len = OUTPUT_BUFF_LEN, buff = replicate OUTPUT_BUFF_LEN NUL, read = 0, write = 0\<rparr>"

section \<open>The main loop (main.c)\<close>


definition CLOCK_ACQUIRE_MAG :: nat where [simp]:
  "CLOCK_ACQUIRE_MAG = 4"


definition N_MAG_READINGS :: nat where [simp]:
  "N_MAG_READINGS = 5"

definition main_hz :: int where [simp]:
  "main_hz = 100"

text \<open>\<^verbatim>\<open>struct MagReading\<close>: three \<^verbatim>\<open>long\<close> members. They hold values that
  \<^verbatim>\<open>read_mag_axis\<close> returns as 16-bit ints, so that a sum of five of them stays inside
  a 32-bit \<^verbatim>\<open>long\<close>.\<close>

record MagReading =
  mag_x :: int
  mag_y :: int
  mag_z :: int

definition zero_reading :: MagReading where
  "zero_reading = \<lparr>mag_x = 0, mag_y = 0, mag_z = 0\<rparr>"

definition add_reading :: "MagReading \<Rightarrow> MagReading \<Rightarrow> MagReading" where
  "add_reading a b = \<lparr>mag_x = mag_x a + mag_x b, mag_y = mag_y a + mag_y b, mag_z = mag_z a + mag_z b\<rparr>"

text \<open>\<^verbatim>\<open>is_valid_rate\<close> (lines 82 to 91): a search of the table of the six valid rates.\<close>

definition valid_rates_values :: "int list" where
  "valid_rates_values = [0, 1, 2, 4, 5, 10]"

definition is_valid_rate :: "int \<Rightarrow> bool" where
  "is_valid_rate rate \<longleftrightarrow> rate \<in> set valid_rates_values"

text \<open>
  The variables of \<^verbatim>\<open>main\<close> and the two global buffers. \<open>mag_w\<close> and \<open>readings\<close>
  are the members \<^verbatim>\<open>w\<close> and \<^verbatim>\<open>readings\<close> of \<^verbatim>\<open>mag_readings\<close>; \<open>LATG9\<close> is the
  output latch of the LED.
\<close>

record main_state =
  print_mag_rate :: int
  mag_w :: nat
  readings :: "MagReading list"
  LD2_toggle_counter :: nat
  acquire_mag_counter :: nat
  print_mag_counter :: nat
  print_yaw_counter :: nat
  avg_reading :: MagReading
  yaw_deg :: int
  pstate :: parser_state
  UART_input_buff :: circular_buffer
  UART_output_buff :: circular_buffer
  LATG9 :: bool

subsection \<open>Rendering with sprintf\<close>

text \<open>The conversion \<^verbatim>\<open>%d\<close> of the C library, and the 20-byte array \<^verbatim>\<open>output_str\<close>
  that receives the text and its terminating NUL: a longer text overruns the array.\<close>

fun dec_digits :: "nat \<Rightarrow> string" where
  "dec_digits n =
     (if n < 10 then [char_of (48 + n)] else dec_digits (n div 10) @ [char_of (48 + n mod 10)])"

definition print_d :: "int \<Rightarrow> string" where
  "print_d i = (if i < 0 then CHR ''-'' # dec_digits (nat (- i)) else dec_digits (nat i))"

definition output_str :: "string \<Rightarrow> string option" where
  "output_str str = (if length str < 20 then Some str else None)"

definition sprintf_mag :: "MagReading \<Rightarrow> string option" where
  "sprintf_mag r =
     output_str (''$MAG,'' @ print_d (int16 (mag_x r)) @ '','' @ print_d (int16 (mag_y r))
                 @ '','' @ print_d (int16 (mag_z r)) @ ''*'')"



subsection \<open>The periodic tasks\<close>


text \<open>
  The summing loop
  \<^verbatim>\<open>for (i = w; i != (w + 1) % N_MAG_READINGS; i = (i + 1) % N_MAG_READINGS)\<close>.
\<close>

function sum_loop :: "MagReading list \<Rightarrow> nat \<Rightarrow> nat \<Rightarrow> MagReading \<Rightarrow> MagReading option" where
  "sum_loop rs w i sum_reading =
     (if i \<noteq> (w + 1) mod N_MAG_READINGS
      then (if i < length rs
            then sum_loop rs w ((i + 1) mod N_MAG_READINGS) (add_reading sum_reading (rs ! i))
            else None)
      else Some sum_reading)"
  by pat_completeness auto
termination
proof (relation "measure (\<lambda>(rs, w, i, sum_reading).
        if 5 \<le> i then 6 else if i \<le> (w + 1) mod 5 then (w + 1) mod 5 - i else (w + 1) mod 5 + 5 - i)")
  show "wf (measure (\<lambda>(rs :: MagReading list, w, i, sum_reading :: MagReading).
        if 5 \<le> i then 6 else if i \<le> (w + 1) mod 5 then (w + 1) mod 5 - i else (w + 1) mod 5 + 5 - i))"
    by simp
next
  fix rs :: "MagReading list" and w i :: nat and sum_reading :: MagReading
  assume neq: "i \<noteq> (w + 1) mod N_MAG_READINGS"
  define t where "t = (w + 1) mod 5"
  define j where "j = (i + 1) mod 5"
  have t: "t < 5" by (simp add: t_def)
  have j: "j < 5" by (simp add: j_def)
  have next_i: "(i + 1) mod 5 = (if i mod 5 = 4 then 0 else i mod 5 + 1)"
    by presburger
  have "(if 5 \<le> j then 6 else if j \<le> t then t - j else t + 5 - j)
      < (if 5 \<le> i then 6 else if i \<le> t then t - i else t + 5 - i)"
  proof (cases "5 \<le> i")
    case True
    with j t show ?thesis by auto
  next
    case False
    then have "i mod 5 = i" by simp
    with next_i have "j = (if i = 4 then 0 else i + 1)" by (simp add: j_def)
    moreover have "i \<noteq> t" using neq by (simp add: t_def)
    ultimately show ?thesis using False t by auto
  qed
  then show "((rs, w, (i + 1) mod N_MAG_READINGS, add_reading sum_reading (rs ! i)), (rs, w, i, sum_reading))
      \<in> measure (\<lambda>(rs, w, i, sum_reading).
        if 5 \<le> i then 6 else if i \<le> (w + 1) mod 5 then (w + 1) mod 5 - i else (w + 1) mod 5 + 5 - i)"
    unfolding in_measure prod.case t_def j_def N_MAG_READINGS_def .
qed

text \<open>
  The acquisition task. \<open>sample\<close> holds what the three calls of \<^verbatim>\<open>read_mag_axis\<close>
  return; \<open>heading y x\<close> stands for the floating-point expression
  \<^verbatim>\<open>(int) (180.0 * atan2((float) y, (float) x) / M_PI)\<close>.
\<close>

definition acquire_task :: "(int \<Rightarrow> int \<Rightarrow> int) \<Rightarrow> MagReading \<Rightarrow> main_state \<Rightarrow> main_state option" where
  "acquire_task heading sample s =
    (let c = acquire_mag_counter s + 1 in
     if c \<ge> CLOCK_ACQUIRE_MAG
     then
       if mag_w s < length (readings s)
       then
         let rs = (readings s)[mag_w s := sample];
             w = (mag_w s + 1) mod N_MAG_READINGS
         in do {
           sum_reading \<leftarrow> sum_loop rs w w zero_reading;
           let avg = \<lparr>mag_x = c_div (mag_x sum_reading) (int N_MAG_READINGS),
                      mag_y = c_div (mag_y sum_reading) (int N_MAG_READINGS),
                      mag_z = c_div (mag_z sum_reading) (int N_MAG_READINGS)\<rparr>;
           Some (s\<lparr>acquire_mag_counter := 0, readings := rs, mag_w := w,
                    avg_reading := avg, yaw_deg := heading (mag_y avg) (mag_x avg)\<rparr>)
         }
       else None
     else Some (s\<lparr>acquire_mag_counter := c\<rparr>))"

definition mag_print_task :: "main_state \<Rightarrow> (main_state \<times> string list) option" where
  "mag_print_task s =
    (if print_mag_rate s \<noteq> 0
     then
       let c = print_mag_counter s + 1 in
       if int c \<ge> c_div main_hz (print_mag_rate s)
       then do {
         str \<leftarrow> sprintf_mag (avg_reading s);
         Some (s\<lparr>print_mag_counter := 0,
                  UART_output_buff := print_to_buff str (UART_output_buff s)\<rparr>, [str])
       }
       else Some (s\<lparr>print_mag_counter := c\<rparr>, [])
     else Some (s, []))"


subsection \<open>Draining the input buffer\<close>

text \<open>\<^verbatim>\<open>strcmp(a, lit) == 0\<close> for an array \<open>a\<close> and a literal \<open>lit\<close>: the comparison
  stops at the first difference and runs past an array that ends before one.\<close>

fun strcmp_eq :: "char list \<Rightarrow> string \<Rightarrow> bool option" where
  "strcmp_eq [] lit = None"
| "strcmp_eq (c # cs) [] = Some (c = NUL)"
| "strcmp_eq (c # cs) (d # ds) = (if c = d then strcmp_eq cs ds else Some False)"

text \<open>The body of the loop for one byte of the buffer (lines 230 to 240), up to the
  advance of the read index.\<close>

definition handle_byte :: "main_state \<Rightarrow> char \<Rightarrow> (main_state \<times> string list) option" where
  "handle_byte s byte = do {
     (ps, status) \<leftarrow> parse_byte (pstate s) byte;
     let s1 = s\<lparr>pstate := ps\<rparr>;
     if status = NEW_MESSAGE
     then do {
       is_rate \<leftarrow> strcmp_eq (msg_type ps) ''RATE'';
       if is_rate
       then do {
         rate \<leftarrow> extract_integer (msg_payload ps);
         if is_valid_rate rate
         then Some (s1\<lparr>print_mag_rate := rate\<rparr>, [])
         else Some (s1\<lparr>UART_output_buff := print_to_buff ''$ERR,1*'' (UART_output_buff s1)\<rparr>,
                    [''$ERR,1*''])
       }
       else Some (s1, [])
     }
     else Some (s1, [])
   }"

text \<open>
  \<^verbatim>\<open>while (UART_input_buff.read != UART_input_buff.write)\<close> (lines 229 to 242), for
  the bytes that the buffer holds when the loop starts. The loop does not end when
  the write index lies outside the buffer, hence a partial function: \<open>None\<close> is a run
  that does not return or that leaves an array.
\<close>

partial_function (option) drain :: "main_state \<Rightarrow> (main_state \<times> string list) option" where
  "drain s =
    (if read (UART_input_buff s) \<noteq> write (UART_input_buff s)
     then do {
       byte \<leftarrow> load (buff (UART_input_buff s)) (read (UART_input_buff s));
       (s1, msgs1) \<leftarrow> handle_byte s byte;
       (s2, msgs2) \<leftarrow> drain (s1\<lparr>UART_input_buff := input_consume (UART_input_buff s1)\<rparr>);
       Some (s2, msgs1 @ msgs2)
     }
     else Some (s, []))"

declare drain.simps [code]

text \<open>The same handling for a sequence of bytes given as a list.\<close>

fun handle_bytes :: "main_state \<Rightarrow> string \<Rightarrow> (main_state \<times> string list) option" where
  "handle_bytes s [] = Some (s, [])"
| "handle_bytes s (b # bs) = do {
     (s1, msgs1) \<leftarrow> handle_byte s b;
     (s2, msgs2) \<leftarrow> handle_bytes s1 bs;
     Some (s2, msgs1 @ msgs2)
   }"

subsection \<open>One iteration of the loop, and runs of the loop\<close>


text \<open>
  What happens around one iteration: while the loop waits for the period in
  \<^verbatim>\<open>tmr_wait_period\<close>, the receive interrupt stores the bytes that arrived and the
  transmit interrupt sends what the hardware has room for; then the body runs with the
  sample that the sensor holds. The interrupts are taken between iterations.
\<close>

record tick_input =
  sample :: MagReading
  rx_bytes :: string
  tx_room :: nat

definition interrupts :: "tick_input \<Rightarrow> main_state \<Rightarrow> main_state option" where
  "interrupts inp s = do {
     ib \<leftarrow> U1RXInterrupt (UART_input_buff s) (rx_bytes inp);
     (ob, sent) \<leftarrow> U1TXInterrupt (UART_output_buff s) (tx_room inp);
     Some (s\<lparr>UART_input_buff := ib, UART_output_buff := ob\<rparr>)
   }"


text \<open>The state in which \<^verbatim>\<open>main\<close> enters its loop, for a parser with arrays of \<open>n\<close> and
  \<open>m\<close> elements and the five readings \<open>rs\<close> of the start-up loop.\<close>

definition main_init :: "nat \<Rightarrow> nat \<Rightarrow> MagReading list \<Rightarrow> main_state" where
  "main_init n m rs =
    \<lparr>print_mag_rate = 5, mag_w = 0, readings = rs,
     LD2_toggle_counter = 0, acquire_mag_counter = 0, print_mag_counter = 0,
     print_yaw_counter = 0, avg_reading = zero_reading, yaw_deg = 0,
     pstate = parser_init n m,
     UART_input_buff = UART_input_buff_init, UART_output_buff = UART_output_buff_init,
     LATG9 = False\<rparr>"

subsection \<open>The average of the specification\<close>

text \<open>The average reading as the specification describes it: the sum over all the
  slots of the window, divided by their number \<open>N\<close> with truncation.\<close>

definition window_average :: "MagReading list \<Rightarrow> MagReading" where
  "window_average rs =
    (let total = foldl add_reading zero_reading rs in
     \<lparr>mag_x = c_div (mag_x total) (int N_MAG_READINGS),
      mag_y = c_div (mag_y total) (int N_MAG_READINGS),
      mag_z = c_div (mag_z total) (int N_MAG_READINGS)\<rparr>)"

subsection \<open>States in which the loop is defined\<close>





section \<open>Properties of the parser\<close>

subsection \<open>Stores and single calls\<close>

lemma store_Some_iff: "store xs i c = Some ys \<longleftrightarrow> i < length xs \<and> ys = xs[i := c]"
  by (auto simp: store_def)

lemma store_None_iff: "store xs i c = None \<longleftrightarrow> \<not> i < length xs"
  by (simp add: store_def)

lemma parse_byte_defined_iff:
  "parse_byte ps byte \<noteq> None \<longleftrightarrow> (\<forall>s \<in> set (parse_byte_stores ps byte). store_in_bounds ps s)"
  by (cases "state ps")
     (auto simp: parse_byte_def parse_byte_stores_def store_def split: bind_splits if_splits)

text \<open>The call that ends a type of six characters stores at index 6, and the call that
  ends a payload of a hundred characters at index 100: arrays of 6 and 100 elements are
  too short for them.\<close>

lemma parse_byte_last_indices:
  "parse_byte ((parser_init 6 100)\<lparr>state := STATE_TYPE, index_type := 6\<rparr>) CHR '','' = None"
  "parse_byte ((parser_init 7 100)\<lparr>state := STATE_PAYLOAD, index_payload := 100\<rparr>) CHR ''*'' = None"
  by (simp_all add: parse_byte_def parser_init_def store_def)

subsection \<open>Feeding the characters of a frame\<close>

lemma feed_append:
  "feed ps (xs @ ys) = do {
     (ps1, s1) \<leftarrow> feed ps xs;
     (ps2, s2) \<leftarrow> feed ps1 ys;
     Some (ps2, s1 @ s2) }"
  by (induction xs arbitrary: ps) (auto split: bind_splits)

lemma feed_type_chars:
  assumes "state ps = STATE_TYPE"
    and "CHR '','' \<notin> set T" and "CHR ''*'' \<notin> set T"
    and "index_type ps + length T \<le> 6"
    and "index_type ps + length T \<le> length (msg_type ps)"
  shows "\<exists>ps'. feed ps T = Some (ps', replicate (length T) NO_MESSAGE)
           \<and> state ps' = STATE_TYPE
           \<and> index_type ps' = index_type ps + length T
           \<and> length (msg_type ps') = length (msg_type ps)
           \<and> take (index_type ps + length T) (msg_type ps') = take (index_type ps) (msg_type ps) @ T
           \<and> msg_payload ps' = msg_payload ps
           \<and> index_payload ps' = index_payload ps"
  using assms
proof (induction T arbitrary: ps)
  case Nil
  then show ?case by simp
next
  case (Cons b T)
  let ?ps1 = "ps\<lparr>msg_type := (msg_type ps)[index_type ps := b], index_type := index_type ps + 1\<rparr>"
  have step: "parse_byte ps b = Some (?ps1, NO_MESSAGE)"
    using Cons.prems by (auto simp: parse_byte_def store_def)
  have "\<exists>ps'. feed ?ps1 T = Some (ps', replicate (length T) NO_MESSAGE)
           \<and> state ps' = STATE_TYPE
           \<and> index_type ps' = index_type ?ps1 + length T
           \<and> length (msg_type ps') = length (msg_type ?ps1)
           \<and> take (index_type ?ps1 + length T) (msg_type ps') = take (index_type ?ps1) (msg_type ?ps1) @ T
           \<and> msg_payload ps' = msg_payload ?ps1
           \<and> index_payload ps' = index_payload ?ps1"
    using Cons.prems by (intro Cons.IH) auto
  then obtain ps' where ps': "feed ?ps1 T = Some (ps', replicate (length T) NO_MESSAGE)"
      "state ps' = STATE_TYPE" "index_type ps' = index_type ps + 1 + length T"
      "length (msg_type ps') = length (msg_type ps)"
      "take (index_type ps + 1 + length T) (msg_type ps') = take (index_type ps + 1) ((msg_type ps)[index_type ps := b]) @ T"
      "msg_payload ps' = msg_payload ps" "index_payload ps' = index_payload ps"
    by auto
  have "take (index_type ps + 1) ((msg_type ps)[index_type ps := b]) = take (index_type ps) (msg_type ps) @ [b]"
    using Cons.prems by (simp add: take_Suc_conv_app_nth)
  with ps' step show ?case by simp
qed

lemma feed_payload_chars:
  assumes "state ps = STATE_PAYLOAD"
    and "CHR ''*'' \<notin> set P"
    and "index_payload ps + length P \<le> 100"
    and "index_payload ps + length P \<le> length (msg_payload ps)"
  shows "\<exists>ps'. feed ps P = Some (ps', replicate (length P) NO_MESSAGE)
           \<and> state ps' = STATE_PAYLOAD
           \<and> index_payload ps' = index_payload ps + length P
           \<and> length (msg_payload ps') = length (msg_payload ps)
           \<and> take (index_payload ps + length P) (msg_payload ps') = take (index_payload ps) (msg_payload ps) @ P
           \<and> msg_type ps' = msg_type ps
           \<and> index_type ps' = index_type ps"
  using assms
proof (induction P arbitrary: ps)
  case Nil
  then show ?case by simp
next
  case (Cons b P)
  let ?ps1 = "ps\<lparr>msg_payload := (msg_payload ps)[index_payload ps := b], index_payload := index_payload ps + 1\<rparr>"
  have step: "parse_byte ps b = Some (?ps1, NO_MESSAGE)"
    using Cons.prems by (auto simp: parse_byte_def store_def)
  have "\<exists>ps'. feed ?ps1 P = Some (ps', replicate (length P) NO_MESSAGE)
           \<and> state ps' = STATE_PAYLOAD
           \<and> index_payload ps' = index_payload ?ps1 + length P
           \<and> length (msg_payload ps') = length (msg_payload ?ps1)
           \<and> take (index_payload ?ps1 + length P) (msg_payload ps') = take (index_payload ?ps1) (msg_payload ?ps1) @ P
           \<and> msg_type ps' = msg_type ?ps1
           \<and> index_type ps' = index_type ?ps1"
    using Cons.prems by (intro Cons.IH) auto
  then obtain ps' where ps': "feed ?ps1 P = Some (ps', replicate (length P) NO_MESSAGE)"
      "state ps' = STATE_PAYLOAD" "index_payload ps' = index_payload ps + 1 + length P"
      "length (msg_payload ps') = length (msg_payload ps)"
      "take (index_payload ps + 1 + length P) (msg_payload ps') = take (index_payload ps + 1) ((msg_payload ps)[index_payload ps := b]) @ P"
      "msg_type ps' = msg_type ps" "index_type ps' = index_type ps"
    by auto
  have "take (index_payload ps + 1) ((msg_payload ps)[index_payload ps := b]) = take (index_payload ps) (msg_payload ps) @ [b]"
    using Cons.prems by (simp add: take_Suc_conv_app_nth)
  with ps' step show ?case by simp
qed

lemma c_str_terminated:
  assumes "n < length xs" and "take n xs = s" and "xs ! n = NUL" and "NUL \<notin> set s"
  shows "c_str xs = Some s"
proof -
  have xs: "xs = s @ NUL # drop (Suc n) xs"
    using assms by (metis id_take_nth_drop)
  have "NUL \<in> set xs" by (subst xs) simp
  moreover have "takeWhile (\<lambda>c. c \<noteq> NUL) (s @ NUL # drop (Suc n) xs) = s"
    using assms(4) by (auto simp add: takeWhile_tail)
  then have "takeWhile (\<lambda>c. c \<noteq> NUL) xs = s"
    using xs by simp
  ultimately show ?thesis by (simp add: c_str_def)
qed

lemma feed_frame:
  assumes "state ps = STATE_DOLLAR" and "type_token T" and "payload_text P"
    and "length T \<le> 6" and "length P \<le> 100"
    and "length T < length (msg_type ps)" and "length P < length (msg_payload ps)"
  shows "\<exists>ps'. feed ps (frame T P) =
              Some (ps', replicate (length T + length P + 2) NO_MESSAGE @ [NEW_MESSAGE])
           \<and> state ps' = STATE_DOLLAR
           \<and> c_str (msg_type ps') = Some T \<and> c_str (msg_payload ps') = Some P
           \<and> length (msg_type ps') = length (msg_type ps)
           \<and> length (msg_payload ps') = length (msg_payload ps)"
proof -
  let ?ps1 = "ps\<lparr>state := STATE_TYPE, index_type := 0\<rparr>"
  have s1: "parse_byte ps CHR ''$'' = Some (?ps1, NO_MESSAGE)"
    using assms(1) by (simp add: parse_byte_def)
  obtain ps2 where s2: "feed ?ps1 T = Some (ps2, replicate (length T) NO_MESSAGE)"
      and ps2: "state ps2 = STATE_TYPE" "index_type ps2 = length T"
        "length (msg_type ps2) = length (msg_type ps)" "take (length T) (msg_type ps2) = T"
        "msg_payload ps2 = msg_payload ps"
    using feed_type_chars [of ?ps1 T] assms by (auto simp: type_token_def)
  let ?ps3 = "ps2\<lparr>state := STATE_PAYLOAD, msg_type := (msg_type ps2)[length T := NUL], index_payload := 0\<rparr>"
  have s3: "parse_byte ps2 CHR '','' = Some (?ps3, NO_MESSAGE)"
    using ps2 assms(6) by (simp add: parse_byte_def store_def)
  obtain ps4 where s4: "feed ?ps3 P = Some (ps4, replicate (length P) NO_MESSAGE)"
      and ps4: "state ps4 = STATE_PAYLOAD" "index_payload ps4 = length P"
        "length (msg_payload ps4) = length (msg_payload ps)" "take (length P) (msg_payload ps4) = P"
        "msg_type ps4 = (msg_type ps2)[length T := NUL]"
    using feed_payload_chars [of ?ps3 P] assms ps2 by (auto simp: payload_text_def)
  let ?ps5 = "ps4\<lparr>state := STATE_DOLLAR, msg_payload := (msg_payload ps4)[length P := NUL]\<rparr>"
  have s5: "parse_byte ps4 CHR ''*'' = Some (?ps5, NEW_MESSAGE)"
    using ps4 assms(7) by (simp add: parse_byte_def store_def)
  have "feed ps (frame T P) =
      Some (?ps5, NO_MESSAGE # replicate (length T) NO_MESSAGE @ NO_MESSAGE # replicate (length P) NO_MESSAGE @ [NEW_MESSAGE])"
    using s1 s2 s3 s4 s5 by (simp add: frame_def feed_append)
  moreover have "NO_MESSAGE # replicate (length T) NO_MESSAGE @ NO_MESSAGE # replicate (length P) NO_MESSAGE @ [NEW_MESSAGE]
      = replicate (length T + length P + 2) NO_MESSAGE @ [NEW_MESSAGE]"
    by (simp add: replicate_add replicate_append_same)
  moreover have "c_str (msg_type ?ps5) = Some T"
    using ps2 ps4 assms by (intro c_str_terminated [where n = "length T"]) (auto simp: type_token_def)
  moreover have "c_str (msg_payload ?ps5) = Some P"
    using ps4 assms by (intro c_str_terminated [where n = "length P"]) (auto simp: payload_text_def)
  ultimately show ?thesis using ps2 ps4 by auto
qed

lemma feed_frame_no_payload:
  assumes "state ps = STATE_DOLLAR" and "type_token T"
    and "length T \<le> 5"
    and "length T < length (msg_type ps)" and "0 < length (msg_payload ps)"
  shows "\<exists>ps'. feed ps (frame_no_payload T) =
              Some (ps', replicate (length T + 1) NO_MESSAGE @ [NEW_MESSAGE])
           \<and> state ps' = STATE_DOLLAR
           \<and> c_str (msg_type ps') = Some T \<and> c_str (msg_payload ps') = Some []
           \<and> length (msg_type ps') = length (msg_type ps)
           \<and> length (msg_payload ps') = length (msg_payload ps)"
proof -
  let ?ps1 = "ps\<lparr>state := STATE_TYPE, index_type := 0\<rparr>"
  have s1: "parse_byte ps CHR ''$'' = Some (?ps1, NO_MESSAGE)"
    using assms(1) by (simp add: parse_byte_def)
  obtain ps2 where s2: "feed ?ps1 T = Some (ps2, replicate (length T) NO_MESSAGE)"
      and ps2: "state ps2 = STATE_TYPE" "index_type ps2 = length T"
        "length (msg_type ps2) = length (msg_type ps)" "take (length T) (msg_type ps2) = T"
        "msg_payload ps2 = msg_payload ps"
    using feed_type_chars [of ?ps1 T] assms by (auto simp: type_token_def)
  let ?ps3 = "ps2\<lparr>state := STATE_DOLLAR, msg_type := (msg_type ps2)[length T := NUL],
                   msg_payload := (msg_payload ps2)[0 := NUL]\<rparr>"
  have s3: "parse_byte ps2 CHR ''*'' = Some (?ps3, NEW_MESSAGE)"
    using ps2 assms by (simp add: parse_byte_def store_def)
  have "feed ps (frame_no_payload T) =
      Some (?ps3, NO_MESSAGE # replicate (length T) NO_MESSAGE @ [NEW_MESSAGE])"
    using s1 s2 s3 by (simp add: frame_no_payload_def feed_append)
  moreover have "c_str (msg_type ?ps3) = Some T"
    using ps2 assms by (intro c_str_terminated [where n = "length T"]) (auto simp: type_token_def)
  moreover have "c_str (msg_payload ?ps3) = Some []"
    using ps2 assms by (intro c_str_terminated [where n = 0]) auto
  ultimately show ?thesis using ps2 by auto
qed

subsection \<open>An oversized type token\<close>

lemma feed_ignored:
  assumes "state ps = STATE_DOLLAR" and "CHR ''$'' \<notin> set G"
  shows "feed ps G = Some (ps, replicate (length G) NO_MESSAGE)"
  using assms by (induction G) (auto simp: parse_byte_def)

lemma replicate_two_runs:
  "x # replicate a x @ x # replicate g x = replicate (g + (a + 2)) x"
  by (induction a) (auto simp: numeral_2_eq_2)

lemma feed_oversized_type:
  assumes "state ps = STATE_DOLLAR"
    and "length J = 6" and "CHR '','' \<notin> set J" and "CHR ''*'' \<notin> set J" and "b \<noteq> CHR '',''"
    and "CHR ''$'' \<notin> set G"
    and "6 \<le> length (msg_type ps)"
  shows "\<exists>ps1. feed ps (CHR ''$'' # J @ b # G) = Some (ps1, replicate (length G + 8) NO_MESSAGE)
           \<and> state ps1 = STATE_DOLLAR \<and> index_type ps1 = 0
           \<and> length (msg_type ps1) = length (msg_type ps)
           \<and> msg_payload ps1 = msg_payload ps"
proof -
  let ?ps1 = "ps\<lparr>state := STATE_TYPE, index_type := 0\<rparr>"
  have s1: "parse_byte ps CHR ''$'' = Some (?ps1, NO_MESSAGE)"
    using assms(1) by (simp add: parse_byte_def)
  obtain ps2 where s2: "feed ?ps1 J = Some (ps2, replicate (length J) NO_MESSAGE)"
      and ps2: "state ps2 = STATE_TYPE" "index_type ps2 = 6"
        "length (msg_type ps2) = length (msg_type ps)" "msg_payload ps2 = msg_payload ps"
    using feed_type_chars [of ?ps1 J] assms by auto
  let ?ps3 = "ps2\<lparr>state := STATE_DOLLAR, index_type := 0\<rparr>"
  have s3: "parse_byte ps2 b = Some (?ps3, NO_MESSAGE)"
    using ps2 assms(5) by (simp add: parse_byte_def)
  have s4: "feed ?ps3 G = Some (?ps3, replicate (length G) NO_MESSAGE)"
    using assms(6) by (intro feed_ignored) auto
  have e1: "feed ps (CHR ''$'' # J @ b # G) =
      Some (?ps3, NO_MESSAGE # replicate (length J) NO_MESSAGE @ NO_MESSAGE # replicate (length G) NO_MESSAGE)"
    using s1 s2 s3 s4 by (simp add: feed_append)
  have e2: "NO_MESSAGE # replicate (length J) NO_MESSAGE @ NO_MESSAGE # replicate (length G) NO_MESSAGE
      = replicate (length G + (length J + 2)) NO_MESSAGE"
    by (rule replicate_two_runs)
  have e3: "length G + (length J + 2) = length G + 8"
    using assms(2) by simp
  have full: "feed ps (CHR ''$'' # J @ b # G) = Some (?ps3, replicate (length G + 8) NO_MESSAGE)"
    by (simp only: e1 e2 e3)
  have "state ?ps3 = STATE_DOLLAR" and "index_type ?ps3 = 0"
    and "length (msg_type ?ps3) = length (msg_type ps)" and "msg_payload ?ps3 = msg_payload ps"
    using ps2 by simp_all
  with full show ?thesis by blast
qed

lemma feed_then:
  assumes "feed ps xs = Some (ps1, replicate n NO_MESSAGE)"
    and "feed ps1 ys = Some (ps2, replicate m NO_MESSAGE @ [NEW_MESSAGE])"
  shows "feed ps (xs @ ys) = Some (ps2, replicate (n + m) NO_MESSAGE @ [NEW_MESSAGE])"
  using assms by (simp add: feed_append replicate_add)

section \<open>Properties of extract\_integer\<close>

lemma int16_in_range: "- 32768 \<le> x \<Longrightarrow> x \<le> 32767 \<Longrightarrow> int16 x = x"
  by (simp add: int16_def)

lemma digit_char_val:
  assumes "digit_char c"
  shows "char_val c - char_val CHR ''0'' = int (of_char c) - 48"
    and "0 \<le> int (of_char c) - 48" and "int (of_char c) - 48 \<le> 9"
    and "c \<noteq> CHR '',''" and "c \<noteq> NUL" and "c \<noteq> CHR ''-''" and "c \<noteq> CHR ''+''"
  using assms by (auto simp: digit_char_def char_val_def)

lemma decimal_fold_mono:
  assumes "\<forall>c\<in>set ds. digit_char c" and "0 \<le> n"
  shows "n \<le> foldl (\<lambda>n c. 10 * n + (int (of_char c) - 48)) n ds"
  using assms
proof (induction ds arbitrary: n)
  case Nil
  then show ?case by simp
next
  case (Cons c ds)
  have d: "0 \<le> int (of_char c) - 48" using Cons.prems digit_char_val(2) by simp
  have "10 * n + (int (of_char c) - 48) \<le> foldl (\<lambda>n c. 10 * n + (int (of_char c) - 48)) (10 * n + (int (of_char c) - 48)) ds"
    using Cons.prems d by (intro Cons.IH) auto
  with d Cons.prems show ?case by simp
qed

lemma extract_loop_digits:
  assumes "\<forall>c\<in>set ds. digit_char c" and "0 \<le> n"
    and "foldl (\<lambda>n c. 10 * n + (int (of_char c) - 48)) n ds \<le> 32767"
    and "t = CHR '','' \<or> t = NUL"
  shows "extract_loop (ds @ t # rest) n = Some (foldl (\<lambda>n c. 10 * n + (int (of_char c) - 48)) n ds)"
  using assms
proof (induction ds arbitrary: n)
  case Nil
  then show ?case by auto
next
  case (Cons c ds)
  let ?n' = "10 * n + (int (of_char c) - 48)"
  have c: "digit_char c" and ds: "\<forall>c\<in>set ds. digit_char c" using Cons.prems by simp_all
  note dc = digit_char_val [OF c]
  have n'0: "0 \<le> ?n'" using Cons.prems(2) dc(2) by simp
  have "?n' \<le> foldl (\<lambda>n c. 10 * n + (int (of_char c) - 48)) ?n' ds"
    using ds n'0 by (rule decimal_fold_mono)
  with Cons.prems(3) have n'max: "?n' \<le> 32767" by simp
  have n10: "int16 (n * 10) = n * 10"
    using Cons.prems(2) n'max dc(2) by (intro int16_in_range) auto
  have step: "int16 (int16 (n * 10) + (char_val c - char_val CHR ''0'')) = ?n'"
    using n'0 n'max by (simp add: n10 dc(1) int16_in_range)
  have "extract_loop ((c # ds) @ t # rest) n = extract_loop (ds @ t # rest) ?n'"
    using dc(4,5) step by simp
  also have "\<dots> = Some (foldl (\<lambda>n c. 10 * n + (int (of_char c) - 48)) ?n' ds)"
    using ds n'0 Cons.prems(3,4) by (intro Cons.IH) auto
  finally show ?case by simp
qed

section \<open>Properties of the ring buffers\<close>

lemma length_queued: "length (queued cb) = used cb"
  by (simp add: queued_def)

lemma used_less: "rb_ok cb \<Longrightarrow> used cb < len cb"
  by (auto simp: rb_ok_def used_def)

lemma ring_index_write:
  assumes "rb_ok cb" and "k \<le> used cb"
  shows "(read cb + k) mod len cb = write cb \<longleftrightarrow> k = used cb"
proof (cases "read cb \<le> write cb")
  case True
  with assms have "read cb + k < len cb" by (auto simp: rb_ok_def used_def)
  with True assms show ?thesis by (auto simp: used_def)
next
  case False
  with assms have b: "read cb + k \<le> write cb + len cb" "write cb < read cb" "write cb < len cb" "read cb < len cb"
    by (auto simp: rb_ok_def used_def)
  show ?thesis
  proof (cases "read cb + k < len cb")
    case True
    with b False show ?thesis by (auto simp: used_def)
  next
    case False
    then have "(read cb + k) mod len cb = read cb + k - len cb"
      using b by (simp add: mod_if)
    with False b show ?thesis by (auto simp: used_def)
  qed
qed

lemma ring_full_iff:
  assumes "rb_ok cb"
  shows "(write cb + 1) mod len cb = read cb \<longleftrightarrow> used cb = len cb - 1"
proof (cases "write cb + 1 < len cb")
  case True
  with assms show ?thesis by (auto simp: rb_ok_def used_def)
next
  case False
  with assms have "write cb + 1 = len cb" by (auto simp: rb_ok_def)
  with assms show ?thesis by (auto simp: rb_ok_def used_def)
qed

lemma try_push_full:
  assumes "rb_ok cb" and "used cb = len cb - 1"
  shows "try_push cb c = cb"
  using assms ring_full_iff [of cb] by (simp add: try_push_def)

lemma try_push_room:
  assumes "rb_ok cb" and "used cb < len cb - 1"
  shows "rb_ok (try_push cb c)" and "queued (try_push cb c) = queued cb @ [c]"
    and "used (try_push cb c) = used cb + 1" and "read (try_push cb c) = read cb"
    and "len (try_push cb c) = len cb"
proof -
  let ?w' = "(write cb + 1) mod len cb"
  let ?cb' = "cb\<lparr>buff := (buff cb)[write cb := c], write := ?w'\<rparr>"
  have nf: "?w' \<noteq> read cb" using assms ring_full_iff [of cb] by simp
  then have tp: "try_push cb c = ?cb'" by (simp add: try_push_def Let_def)
  have ok: "1 < len cb" "length (buff cb) = len cb" "read cb < len cb" "write cb < len cb"
    using assms(1) by (auto simp: rb_ok_def)
  show "rb_ok (try_push cb c)" using ok by (simp add: tp rb_ok_def)
  show "read (try_push cb c) = read cb" by (simp add: tp)
  show "len (try_push cb c) = len cb" by (simp add: tp)
  have u': "used ?cb' = used cb + 1"
  proof (cases "write cb + 1 < len cb")
    case True
    with ok nf show ?thesis by (auto simp: used_def)
  next
    case False
    with ok have "write cb + 1 = len cb" by simp
    with ok nf show ?thesis by (auto simp: used_def)
  qed
  then show "used (try_push cb c) = used cb + 1" by (simp add: tp)
  have old: "buff ?cb' ! ((read cb + k) mod len cb) = buff cb ! ((read cb + k) mod len cb)"
    if "k < used cb" for k
  proof -
    have "(read cb + k) mod len cb \<noteq> write cb"
      using ring_index_write [OF assms(1), of k] that by simp
    then show ?thesis by simp
  qed
  have new: "buff ?cb' ! ((read cb + used cb) mod len cb) = c"
    using ring_index_write [OF assms(1), of "used cb"] ok by simp
  have "queued ?cb' = map (\<lambda>k. buff ?cb' ! ((read cb + k) mod len cb)) [0..<used cb]
      @ [buff ?cb' ! ((read cb + used cb) mod len cb)]"
    using u' by (simp add: queued_def)
  also have "map (\<lambda>k. buff ?cb' ! ((read cb + k) mod len cb)) [0..<used cb] = queued cb"
    unfolding queued_def using old by (intro map_cong) auto
  finally show "queued (try_push cb c) = queued cb @ [c]"
    using new by (simp add: tp)
qed

lemma print_to_buff_room:
  assumes "rb_ok cb" and "used cb + length str < len cb"
  shows "rb_ok (print_to_buff str cb) \<and> queued (print_to_buff str cb) = queued cb @ str
       \<and> read (print_to_buff str cb) = read cb \<and> len (print_to_buff str cb) = len cb"
  using assms
proof (induction str arbitrary: cb)
  case Nil
  then show ?case by (simp add: print_to_buff_def)
next
  case (Cons c str)
  have room: "used cb < len cb - 1" using Cons.prems by simp
  note tp = try_push_room [OF Cons.prems(1) room, of c]
  have "rb_ok (print_to_buff str (try_push cb c))
      \<and> queued (print_to_buff str (try_push cb c)) = queued (try_push cb c) @ str
      \<and> read (print_to_buff str (try_push cb c)) = read (try_push cb c)
      \<and> len (print_to_buff str (try_push cb c)) = len (try_push cb c)"
    using tp Cons.prems by (intro Cons.IH) auto
  with tp show ?case by (simp add: print_to_buff_def)
qed

lemma rx_char_try_push:
  assumes "rb_ok cb" and "len cb = INPUT_BUFF_LEN"
  shows "rx_char cb c = Some (try_push cb c)"
  using assms by (auto simp: rx_char_def try_push_def store_def rb_ok_def Let_def)

lemma rx_full_iff:
  assumes "rb_ok cb" and "len cb = INPUT_BUFF_LEN"
  shows "rx_full cb \<longleftrightarrow> used cb = 9"
  using ring_full_iff [OF assms(1)] assms(2) by (simp add: rx_full_def)

lemma U1RXInterrupt_room:
  assumes "rb_ok cb" and "len cb = INPUT_BUFF_LEN" and "used cb + length cs \<le> 9"
  shows "\<exists>cb'. U1RXInterrupt cb cs = Some cb' \<and> rb_ok cb' \<and> len cb' = INPUT_BUFF_LEN
           \<and> queued cb' = queued cb @ cs \<and> read cb' = read cb"
  using assms
proof (induction cs arbitrary: cb)
  case Nil
  then show ?case by simp
next
  case (Cons c cs)
  have room: "used cb < len cb - 1" using Cons.prems by simp
  note tp = try_push_room [OF Cons.prems(1) room, of c]
  have "\<exists>cb'. U1RXInterrupt (try_push cb c) cs = Some cb' \<and> rb_ok cb' \<and> len cb' = INPUT_BUFF_LEN
           \<and> queued cb' = queued (try_push cb c) @ cs \<and> read cb' = read (try_push cb c)"
    using tp Cons.prems by (intro Cons.IH) auto
  with tp rx_char_try_push [OF Cons.prems(1,2), of c] show ?case by auto
qed

lemma input_consume_queued:
  assumes "rb_ok cb" and "len cb = INPUT_BUFF_LEN" and "read cb \<noteq> write cb"
  shows "rb_ok (input_consume cb)" and "len (input_consume cb) = INPUT_BUFF_LEN"
    and "queued cb = buff cb ! read cb # queued (input_consume cb)"
    and "used cb = used (input_consume cb) + 1"
    and "write (input_consume cb) = write cb"
proof -
  have ok: "length (buff cb) = 10" "read cb < 10" "write cb < 10" "len cb = 10"
    using assms by (auto simp: rb_ok_def)
  show "rb_ok (input_consume cb)" and "len (input_consume cb) = INPUT_BUFF_LEN"
    and "write (input_consume cb) = write cb"
    using assms by (auto simp: rb_ok_def input_consume_def)
  show u: "used cb = used (input_consume cb) + 1"
  proof (cases "read cb + 1 < 10")
    case True
    with ok assms(3) show ?thesis by (auto simp: used_def input_consume_def)
  next
    case False
    with ok have "read cb = 9" by simp
    with ok assms(3) show ?thesis by (auto simp: used_def input_consume_def)
  qed
  have "queued cb = map (\<lambda>k. buff cb ! ((read cb + k) mod 10)) (0 # map Suc [0..<used (input_consume cb)])"
    unfolding queued_def u by (simp add: ok upt_conv_Cons map_Suc_upt del: upt_Suc)
  also have "\<dots> = buff cb ! read cb # map (\<lambda>k. buff cb ! ((read cb + 1 + k) mod 10)) [0..<used (input_consume cb)]"
    using ok by (simp add: comp_def)
  also have "map (\<lambda>k. buff cb ! ((read cb + 1 + k) mod 10)) [0..<used (input_consume cb)]
      = queued (input_consume cb)"
    by (simp add: queued_def input_consume_def ok mod_add_left_eq)
  finally show "queued cb = buff cb ! read cb # queued (input_consume cb)" .
qed

lemma used_empty_iff: "rb_ok cb \<Longrightarrow> used cb = 0 \<longleftrightarrow> read cb = write cb"
  by (auto simp: used_def rb_ok_def)


lemma print_to_buff_Nil: "print_to_buff [] cb = cb"
  by (simp add: print_to_buff_def)

lemma print_to_buff_Cons: "print_to_buff (c # str) cb = print_to_buff str (try_push cb c)"
  by (simp add: print_to_buff_def)



lemma print_to_buff_take:
  assumes "rb_ok cb"
  shows "queued (print_to_buff str cb) = queued cb @ take (len cb - 1 - used cb) str"
  using assms
proof (induction str arbitrary: cb)
  case Nil
  then show ?case by (simp add: print_to_buff_Nil)
next
  case (Cons c str)
  show ?case
  proof (cases "used cb < len cb - 1")
    case True
    note tp = try_push_room [OF Cons.prems True, of c]
    have "queued (print_to_buff str (try_push cb c)) =
        queued (try_push cb c) @ take (len (try_push cb c) - 1 - used (try_push cb c)) str"
      using tp(1) by (rule Cons.IH)
    also have "\<dots> = queued cb @ c # take (len cb - 1 - (used cb + 1)) str"
      using tp by simp
    also have "c # take (len cb - 1 - (used cb + 1)) str = take (len cb - 1 - used cb) (c # str)"
      using True by (simp add: take_Cons')
    finally show ?thesis by (simp add: print_to_buff_Cons)
  next
    case False
    with used_less [OF Cons.prems] have full: "used cb = len cb - 1" by simp
    have same: "try_push cb c = cb" using Cons.prems full by (rule try_push_full)
    have "queued (print_to_buff str cb) = queued cb @ take (len cb - 1 - used cb) str"
      using Cons.prems by (rule Cons.IH)
    with full same show ?thesis by (simp add: print_to_buff_Cons)
  qed
qed

section \<open>Properties of the main loop\<close>

subsection \<open>The summing loop of the acquisition task\<close>

text \<open>The loop starts at the cursor \<open>w\<close> and stops as soon as its index is \<open>(w + 1) mod 5\<close>,
  which is after one round: it adds the slot at the cursor and no other.\<close>

lemma sum_loop_one_slot:
  assumes "w < 5" and "w < length rs"
  shows "sum_loop rs w w acc = Some (add_reading acc (rs ! w))"
proof -
  have "w \<noteq> (w + 1) mod 5" using assms(1) by presburger
  then show ?thesis using assms(2) by (simp add: sum_loop.simps [of rs w "Suc w mod 5"])
qed

lemma acquire_task_one_slot:
  assumes "acquire_mag_counter s = 3" and "mag_w s < 5" and "length (readings s) = 5"
  shows "\<exists>s'. acquire_task heading smp s = Some s'
           \<and> readings s' = (readings s)[mag_w s := smp]
           \<and> mag_w s' = (mag_w s + 1) mod 5
           \<and> mag_x (avg_reading s') = c_div (mag_x (readings s' ! mag_w s')) 5
           \<and> mag_y (avg_reading s') = c_div (mag_y (readings s' ! mag_w s')) 5
           \<and> mag_z (avg_reading s') = c_div (mag_z (readings s' ! mag_w s')) 5"
proof -
  let ?rs = "(readings s)[mag_w s := smp]"
  let ?w = "(mag_w s + 1) mod 5"
  have "sum_loop ?rs ?w ?w zero_reading = Some (add_reading zero_reading (?rs ! ?w))"
    using assms by (intro sum_loop_one_slot) auto
  then show ?thesis
    using assms by (simp add: acquire_task_def Let_def add_reading_def zero_reading_def)
qed

subsection \<open>Handling the bytes of a command\<close>

lemma c_str_Cons:
  "c_str (c # cs) = Some s \<longleftrightarrow>
     (if c = NUL then s = [] else \<exists>s'. s = c # s' \<and> c_str cs = Some s')"
  by (auto simp: c_str_def)

lemma strcmp_eq_c_str:
  assumes "c_str xs = Some s" and "NUL \<notin> set lit"
  shows "strcmp_eq xs lit = Some (s = lit)"
  using assms
proof (induction xs lit arbitrary: s rule: strcmp_eq.induct)
  case (1 lit)
  then show ?case by (simp add: c_str_def)
next
  case (2 c cs)
  then show ?case by (auto simp: c_str_Cons split: if_splits)
next
  case (3 c cs d ds)
  then show ?case by (auto simp: c_str_Cons split: if_splits)
qed

lemma is_valid_rate_iff: "is_valid_rate rate \<longleftrightarrow> rate \<in> {0, 1, 2, 4, 5, 10}"
  by (auto simp: is_valid_rate_def valid_rates_values_def)

lemma handle_byte_no_message:
  assumes "parse_byte (pstate s) byte = Some (ps, NO_MESSAGE)"
  shows "handle_byte s byte = Some (s\<lparr>pstate := ps\<rparr>, [])"
  using assms by (simp add: handle_byte_def)

lemma handle_byte_rate_message:
  assumes "parse_byte (pstate s) byte = Some (ps, NEW_MESSAGE)"
    and "c_str (msg_type ps) = Some ''RATE''"
    and "extract_integer (msg_payload ps) = Some rate"
  shows "handle_byte s byte =
     (if rate \<in> {0, 1, 2, 4, 5, 10}
      then Some (s\<lparr>pstate := ps, print_mag_rate := rate\<rparr>, [])
      else Some (s\<lparr>pstate := ps,
                   UART_output_buff := print_to_buff ''$ERR,1*'' (UART_output_buff s)\<rparr>,
                 [''$ERR,1*'']))"
proof -
  have "strcmp_eq (msg_type ps) ''RATE'' = Some True"
    using strcmp_eq_c_str [OF assms(2), of "''RATE''"] by simp
  then show ?thesis
    using assms(1,3) by (simp add: handle_byte_def is_valid_rate_iff)
qed

lemma feed_length: "feed ps xs = Some (ps', sts) \<Longrightarrow> length sts = length xs"
  by (induction xs arbitrary: ps ps' sts) (auto split: bind_splits)

lemma feed_snoc:
  assumes "feed ps (xs @ [b]) = Some (ps', sts @ [st])"
  shows "\<exists>ps1. feed ps xs = Some (ps1, sts) \<and> parse_byte ps1 b = Some (ps', st)"
proof -
  from assms obtain ps1 s1 ps2 s2 where a: "feed ps xs = Some (ps1, s1)"
      "feed ps1 [b] = Some (ps2, s2)" "ps2 = ps'" "s1 @ s2 = sts @ [st]"
    by (auto simp: feed_append split: bind_splits)
  from a(2) obtain st' where b: "parse_byte ps1 b = Some (ps2, st')" "s2 = [st']"
    by (auto split: bind_splits)
  with a(4) have "s1 = sts" "st' = st" by simp_all
  with a b show ?thesis by simp
qed

lemma handle_bytes_append:
  "handle_bytes s (xs @ ys) = do {
     (s1, m1) \<leftarrow> handle_bytes s xs;
     (s2, m2) \<leftarrow> handle_bytes s1 ys;
     Some (s2, m1 @ m2) }"
  by (induction xs arbitrary: s) (auto split: bind_splits)

lemma handle_bytes_no_message:
  assumes "feed (pstate s) xs = Some (ps1, replicate n NO_MESSAGE)"
  shows "handle_bytes s xs = Some (s\<lparr>pstate := ps1\<rparr>, [])"
  using assms
proof (induction xs arbitrary: s n)
  case Nil
  then show ?case by simp
next
  case (Cons b xs)
  from Cons.prems obtain psa st sts where a: "parse_byte (pstate s) b = Some (psa, st)"
      "feed psa xs = Some (ps1, sts)" "st # sts = replicate n NO_MESSAGE"
    by (auto split: bind_splits)
  from a(3) have st: "st = NO_MESSAGE" and sts: "sts = replicate (n - 1) NO_MESSAGE"
    by (cases n; simp)+
  have "handle_byte s b = Some (s\<lparr>pstate := psa\<rparr>, [])"
    using a(1) st by (simp add: handle_byte_no_message)
  moreover have "handle_bytes (s\<lparr>pstate := psa\<rparr>) xs = Some (s\<lparr>pstate := psa\<rparr>\<lparr>pstate := ps1\<rparr>, [])"
    using a(2) sts by (intro Cons.IH [of _ "n - 1"]) simp
  ultimately show ?case by simp
qed

lemma handle_bytes_last:
  assumes "feed (pstate s) (xs @ [b]) = Some (ps', replicate n NO_MESSAGE @ [st])"
  shows "\<exists>ps1. parse_byte ps1 b = Some (ps', st)
           \<and> handle_bytes s (xs @ [b]) = handle_byte (s\<lparr>pstate := ps1\<rparr>) b"
proof -
  obtain ps1 where a: "feed (pstate s) xs = Some (ps1, replicate n NO_MESSAGE)"
      "parse_byte ps1 b = Some (ps', st)"
    using feed_snoc [OF assms] by blast
  have "handle_bytes s (xs @ [b]) = handle_byte (s\<lparr>pstate := ps1\<rparr>) b"
    using handle_bytes_no_message [OF a(1)]
    by (auto simp: handle_bytes_append split: bind_splits)
  with a(2) show ?thesis by blast
qed

lemma extract_loop_rest:
  "extract_loop (p @ NUL # rest) n = extract_loop (p @ [NUL]) n"
  by (induction p arbitrary: n) auto

lemma c_str_split:
  assumes "c_str xs = Some s"
  shows "\<exists>rest. xs = s @ NUL # rest"
  using assms
proof (induction xs arbitrary: s)
  case Nil
  then show ?case by (simp add: c_str_def)
next
  case (Cons c cs)
  show ?case
  proof (cases "c = NUL")
    case True
    with Cons.prems show ?thesis by (simp add: c_str_Cons)
  next
    case False
    with Cons.prems obtain s' where s': "s = c # s'" "c_str cs = Some s'"
      by (auto simp: c_str_Cons)
    from Cons.IH [OF s'(2)] obtain rest where "cs = s' @ NUL # rest" ..
    with s'(1) show ?thesis by simp
  qed
qed

lemma extract_integer_c_str:
  assumes "c_str xs = Some s"
  shows "extract_integer xs = extract_integer (s @ [NUL])"
proof -
  obtain rest where xs: "xs = s @ NUL # rest" using c_str_split [OF assms] ..
  show ?thesis
  proof (cases s)
    case Nil
    with xs show ?thesis by (simp add: extract_integer_def)
  next
    case (Cons c cs)
    have "extract_loop (cs @ NUL # rest) 0 = extract_loop (cs @ [NUL]) 0"
      and "extract_loop ((c # cs) @ NUL # rest) 0 = extract_loop ((c # cs) @ [NUL]) 0"
      by (rule extract_loop_rest)+
    with xs Cons show ?thesis by (simp add: extract_integer_def)
  qed
qed

lemma handle_bytes_rate_frame:
  assumes "state (pstate s) = STATE_DOLLAR" and "payload_text P" and "length P \<le> 100"
    and "4 < length (msg_type (pstate s))" and "length P < length (msg_payload (pstate s))"
  shows "\<exists>ps1 ps'. parse_byte ps1 CHR ''*'' = Some (ps', NEW_MESSAGE)
           \<and> c_str (msg_type ps') = Some ''RATE''
           \<and> extract_integer (msg_payload ps') = extract_integer (P @ [NUL])
           \<and> handle_bytes s (frame ''RATE'' P) = handle_byte (s\<lparr>pstate := ps1\<rparr>) CHR ''*''"
proof -
  have tt: "type_token ''RATE''" by (simp add: type_token_def)
  obtain ps' where f: "feed (pstate s) (frame ''RATE'' P) =
        Some (ps', replicate (length ''RATE'' + length P + 2) NO_MESSAGE @ [NEW_MESSAGE])"
      and c: "c_str (msg_type ps') = Some ''RATE''" "c_str (msg_payload ps') = Some P"
    using feed_frame [OF assms(1) tt assms(2)] assms(3-5) by auto
  have fr: "frame ''RATE'' P = (CHR ''$'' # ''RATE'' @ CHR '','' # P) @ [CHR ''*'']"
    by (simp add: frame_def)
  obtain ps1 where "parse_byte ps1 CHR ''*'' = Some (ps', NEW_MESSAGE)"
      "handle_bytes s (frame ''RATE'' P) = handle_byte (s\<lparr>pstate := ps1\<rparr>) CHR ''*''"
    using handle_bytes_last [of s "CHR ''$'' # ''RATE'' @ CHR '','' # P" "CHR ''*''"] f
    unfolding fr by blast
  with c extract_integer_c_str [OF c(2)] show ?thesis by blast
qed

lemma handle_bytes_rate_frame_no_payload:
  assumes "state (pstate s) = STATE_DOLLAR"
    and "4 < length (msg_type (pstate s))" and "0 < length (msg_payload (pstate s))"
  shows "\<exists>ps1 ps'. parse_byte ps1 CHR ''*'' = Some (ps', NEW_MESSAGE)
           \<and> c_str (msg_type ps') = Some ''RATE''
           \<and> extract_integer (msg_payload ps') = extract_integer [NUL]
           \<and> handle_bytes s (frame_no_payload ''RATE'') = handle_byte (s\<lparr>pstate := ps1\<rparr>) CHR ''*''"
proof -
  have tt: "type_token ''RATE''" by (simp add: type_token_def)
  obtain ps' where f: "feed (pstate s) (frame_no_payload ''RATE'') =
        Some (ps', replicate (length ''RATE'' + 1) NO_MESSAGE @ [NEW_MESSAGE])"
      and c: "c_str (msg_type ps') = Some ''RATE''" "c_str (msg_payload ps') = Some []"
    using feed_frame_no_payload [OF assms(1) tt] assms(2,3) by auto
  have fr: "frame_no_payload ''RATE'' = (CHR ''$'' # ''RATE'') @ [CHR ''*'']"
    by (simp add: frame_no_payload_def)
  obtain ps1 where "parse_byte ps1 CHR ''*'' = Some (ps', NEW_MESSAGE)"
      "handle_bytes s (frame_no_payload ''RATE'') = handle_byte (s\<lparr>pstate := ps1\<rparr>) CHR ''*''"
    using handle_bytes_last [of s "CHR ''$'' # ''RATE''" "CHR ''*''"] f
    unfolding fr by blast
  with c extract_integer_c_str [OF c(2)] show ?thesis by fastforce
qed

lemma handle_byte_input_update:
  "handle_byte (s\<lparr>UART_input_buff := ib\<rparr>) b =
     map_option (\<lambda>(s', m). (s'\<lparr>UART_input_buff := ib\<rparr>, m)) (handle_byte s b)"
  by (auto simp: handle_byte_def Let_def split: bind_splits prod.splits)

lemma handle_bytes_input_update:
  "handle_bytes (s\<lparr>UART_input_buff := ib\<rparr>) xs =
     map_option (\<lambda>(s', m). (s'\<lparr>UART_input_buff := ib\<rparr>, m)) (handle_bytes s xs)"
proof (induction xs arbitrary: s)
  case Nil
  then show ?case by simp
next
  case (Cons b xs)
  show ?case
  proof (cases "handle_byte s b")
    case None
    then show ?thesis by (simp add: handle_byte_input_update)
  next
    case (Some r)
    obtain s1 m1 where r: "r = (s1, m1)" by (cases r)
    show ?thesis
      using Some r Cons.IH [of s1]
      by (cases "handle_bytes s1 xs") (auto simp: handle_byte_input_update)
  qed
qed

lemma handle_byte_keeps_input:
  "handle_byte s b = Some (s', m) \<Longrightarrow> UART_input_buff s' = UART_input_buff s"
  by (auto simp: handle_byte_def Let_def split: bind_splits if_splits)

lemma drain_handle_bytes:
  assumes "rb_ok (UART_input_buff s)" and "len (UART_input_buff s) = INPUT_BUFF_LEN"
  shows "drain s =
     map_option (\<lambda>(s', m).
         (s'\<lparr>UART_input_buff := (UART_input_buff s)\<lparr>read := write (UART_input_buff s)\<rparr>\<rparr>, m))
       (handle_bytes s (queued (UART_input_buff s)))"
  using assms
proof (induction "used (UART_input_buff s)" arbitrary: s)
  case 0
  then have e: "read (UART_input_buff s) = write (UART_input_buff s)"
    using used_empty_iff by simp
  have "queued (UART_input_buff s) = []"
    using 0 length_queued [of "UART_input_buff s"] by simp
  with e show ?case by (simp add: drain.simps)
next
  case (Suc n)
  let ?ib = "UART_input_buff s"
  have ne: "read ?ib \<noteq> write ?ib"
    using Suc.hyps(2) used_empty_iff [OF Suc.prems(1)] by simp
  note ic = input_consume_queued [OF Suc.prems ne]
  have ld: "load (buff ?ib) (read ?ib) = Some (buff ?ib ! read ?ib)"
    using Suc.prems(1) by (simp add: load_def rb_ok_def)
  show ?case
  proof (cases "handle_byte s (buff ?ib ! read ?ib)")
    case None
    with ne ld ic(3) show ?thesis by (simp add: drain.simps [of s])
  next
    case (Some r)
    obtain s1 m1 where r: "r = (s1, m1)" by (cases r)
    have keep: "UART_input_buff s1 = ?ib"
      using Some r handle_byte_keeps_input by simp
    let ?s2 = "s1\<lparr>UART_input_buff := input_consume ?ib\<rparr>"
    have "n = used (UART_input_buff ?s2)" using Suc.hyps(2) ic(4) by simp
    moreover have "rb_ok (UART_input_buff ?s2)" "len (UART_input_buff ?s2) = INPUT_BUFF_LEN"
      using ic(1,2) by simp_all
    ultimately have IH: "drain ?s2 =
       map_option (\<lambda>(s', m).
         (s'\<lparr>UART_input_buff := (UART_input_buff ?s2)\<lparr>read := write (UART_input_buff ?s2)\<rparr>\<rparr>, m))
       (handle_bytes ?s2 (queued (UART_input_buff ?s2)))"
      by (rule Suc.hyps(1))
    have fin: "(input_consume ?ib)\<lparr>read := write (input_consume ?ib)\<rparr> = ?ib\<lparr>read := write ?ib\<rparr>"
      by (simp add: input_consume_def)
    have d: "drain s = do { (s2, msgs2) \<leftarrow> drain ?s2; Some (s2, m1 @ msgs2) }"
      using ne ld Some r keep by (simp add: drain.simps [of s])
    show ?thesis
      unfolding d IH using Some r ic(3) fin
      by (cases "handle_bytes s1 (queued (input_consume ?ib))")
         (auto simp: handle_bytes_input_update)
  qed
qed

lemma extract_integer_empty: "extract_integer [NUL] = Some 0"
  by (simp add: extract_integer_def int16_def)

lemma mag_print_task_disabled:
  "print_mag_rate s = 0 \<Longrightarrow> mag_print_task s = Some (s, [])"
  by (simp add: mag_print_task_def)

lemma extract_loop_terminated:
  "NUL \<in> set xs \<Longrightarrow> \<exists>v. extract_loop xs n = Some v"
  by (induction xs arbitrary: n) auto

lemma extract_integer_terminated:
  assumes "NUL \<in> set xs"
  shows "\<exists>v. extract_integer xs = Some v"
proof (cases xs)
  case Nil
  with assms show ?thesis by simp
next
  case (Cons c cs)
  show ?thesis
  proof (cases "c = CHR ''-'' \<or> c = CHR ''+''")
    case True
    with assms Cons have "NUL \<in> set cs" by auto
    from extract_loop_terminated [OF this, of 0] True Cons show ?thesis
      by (auto simp: extract_integer_def)
  next
    case False
    from extract_loop_terminated [OF assms, of 0] False Cons show ?thesis
      by (auto simp: extract_integer_def)
  qed
qed

lemma parse_byte_message_terminated:
  assumes "parse_byte ps0 byte = Some (ps, NEW_MESSAGE)"
  shows "NUL \<in> set (msg_payload ps)"
  using assms
  by (cases "state ps0")
     (auto simp: parse_byte_def store_def set_update_memI split: bind_splits if_splits)

subsection \<open>The magnetometer task within the loop\<close>











subsection \<open>What an iteration queues\<close>









subsection \<open>The iterations are defined\<close>






lemma parse_byte_lengths:
  assumes "parse_byte ps b = Some (ps', st)"
  shows "length (msg_type ps') = length (msg_type ps)"
    and "length (msg_payload ps') = length (msg_payload ps)"
  using assms
  by (cases "state ps"; auto simp: parse_byte_def store_def split: bind_splits if_splits)+















subsection \<open>Runs of the loop\<close>








section \<open>The claims of the specification\<close>

subsection \<open>C1: a well-formed frame yields one message\<close>

text \<open>
  C1, as amended. From any parser state in \<open>STATE_DOLLAR\<close>, whatever its arrays and
  indices hold, feeding the bytes of a frame one at a time returns \<open>NO_MESSAGE\<close> for every
  byte but the last and \<open>NEW_MESSAGE\<close> for the last, and then the type array holds the
  string \<open>T\<close> and the payload array the string \<open>P\<close>: for \<^verbatim>\<open>$T,P*\<close> with
  \<open>|T| \<le> 6\<close> and \<open>|P| \<le> 100\<close>, and for \<^verbatim>\<open>$T*\<close> with \<open>|T| \<le> 5\<close>, where the payload
  is empty. The arrays must have room for the strings and their terminating NUL.
\<close>

theorem well_formed_frame_parsed:
  assumes "state ps = STATE_DOLLAR" and "type_token T" and "length T < length (msg_type ps)"
  shows "(payload_text P \<and> length T \<le> 6 \<and> length P \<le> 100 \<and> length P < length (msg_payload ps) \<longrightarrow>
           (\<exists>ps'. feed ps (frame T P) =
                    Some (ps', replicate (length T + length P + 2) NO_MESSAGE @ [NEW_MESSAGE])
                 \<and> c_str (msg_type ps') = Some T \<and> c_str (msg_payload ps') = Some P))
       \<and> (length T \<le> 5 \<and> 0 < length (msg_payload ps) \<longrightarrow>
           (\<exists>ps'. feed ps (frame_no_payload T) =
                    Some (ps', replicate (length T + 1) NO_MESSAGE @ [NEW_MESSAGE])
                 \<and> c_str (msg_type ps') = Some T \<and> c_str (msg_payload ps') = Some []))"
proof (intro conjI impI)
  assume "payload_text P \<and> length T \<le> 6 \<and> length P \<le> 100 \<and> length P < length (msg_payload ps)"
  with assms feed_frame [of ps T P]
  show "\<exists>ps'. feed ps (frame T P) =
                    Some (ps', replicate (length T + length P + 2) NO_MESSAGE @ [NEW_MESSAGE])
                 \<and> c_str (msg_type ps') = Some T \<and> c_str (msg_payload ps') = Some P"
    by blast
next
  assume "length T \<le> 5 \<and> 0 < length (msg_payload ps)"
  with assms feed_frame_no_payload [of ps T]
  show "\<exists>ps'. feed ps (frame_no_payload T) =
                    Some (ps', replicate (length T + 1) NO_MESSAGE @ [NEW_MESSAGE])
                 \<and> c_str (msg_type ps') = Some T \<and> c_str (msg_payload ps') = Some []"
    by blast
qed

text \<open>Witness for C1: the frames \<^verbatim>\<open>$RATE,10*\<close> and \<^verbatim>\<open>$RATE*\<close>, fed to the parser
  as \<^verbatim>\<open>main\<close> initialises it.\<close>

theorem well_formed_frame_parsed_witness:
  "state (parser_init 7 101) = STATE_DOLLAR \<and> type_token ''RATE'' \<and> payload_text ''10''
   \<and> (\<exists>ps'. feed (parser_init 7 101) (frame ''RATE'' ''10'') =
                Some (ps', replicate 8 NO_MESSAGE @ [NEW_MESSAGE])
          \<and> c_str (msg_type ps') = Some ''RATE'' \<and> c_str (msg_payload ps') = Some ''10'')
   \<and> (\<exists>ps'. feed (parser_init 7 101) (frame_no_payload ''RATE'') =
                Some (ps', replicate 5 NO_MESSAGE @ [NEW_MESSAGE])
          \<and> c_str (msg_type ps') = Some ''RATE'' \<and> c_str (msg_payload ps') = Some [])"
proof -
  have h1: "state (parser_init 7 101) = STATE_DOLLAR"
    by (simp add: parser_init_def)
  have h2: "type_token ''RATE''"
    by (simp add: type_token_def)
  have h3: "length ''RATE'' < length (msg_type (parser_init 7 101))"
    by (simp add: parser_init_def)
  have h4: "payload_text ''10'' \<and> length ''RATE'' \<le> 6 \<and> length ''10'' \<le> 100
      \<and> length ''10'' < length (msg_payload (parser_init 7 101))"
    by (simp add: payload_text_def parser_init_def)
  have h5: "length ''RATE'' \<le> 5 \<and> 0 < length (msg_payload (parser_init 7 101))"
    by (simp add: parser_init_def)
  note inst = well_formed_frame_parsed [OF h1 h2 h3, of "''10''"]
  from inst h4 have a: "\<exists>ps'. feed (parser_init 7 101) (frame ''RATE'' ''10'') =
                Some (ps', replicate (length ''RATE'' + length ''10'' + 2) NO_MESSAGE @ [NEW_MESSAGE])
          \<and> c_str (msg_type ps') = Some ''RATE'' \<and> c_str (msg_payload ps') = Some ''10''"
    by blast
  from inst h5 have b: "\<exists>ps'. feed (parser_init 7 101) (frame_no_payload ''RATE'') =
                Some (ps', replicate (length ''RATE'' + 1) NO_MESSAGE @ [NEW_MESSAGE])
          \<and> c_str (msg_type ps') = Some ''RATE'' \<and> c_str (msg_payload ps') = Some []"
    by blast
  have l1: "length ''RATE'' + length ''10'' + 2 = 8" and l2: "length ''RATE'' + 1 = 5"
    by simp_all
  show ?thesis
    using a b h1 h2 h4 unfolding l1 l2 by blast
qed

text \<open>
  Counterexample to C1 as stated: the frame \<^verbatim>\<open>$ABCDEF*\<close> has a type of six characters
  and no comma, and no call returns \<open>NEW_MESSAGE\<close>. In \<open>STATE_TYPE\<close> the test
  \<^verbatim>\<open>index_type == 6\<close> comes before the test for the asterisk, so the asterisk after six
  characters resets the parser.
\<close>

theorem six_char_type_without_payload_dropped:
  "map_option snd (feed (parser_init 7 101) ''$ABCDEF*'') = Some [NO_MESSAGE, NO_MESSAGE, NO_MESSAGE, NO_MESSAGE, NO_MESSAGE, NO_MESSAGE,
       NO_MESSAGE, NO_MESSAGE]"
  by (simp add: parser_init_def parse_byte_def store_def)

subsection \<open>C2: the average after an acquisition\<close>

text \<open>
  C2. After a scheduled acquisition the average reading should be the sum over all five
  slots of the window divided by five with truncation, on each axis. The code is
  evaluated here on a window of known readings with positive and negative values, at
  the fourth iteration, where the acquisition runs. The new sample replaces slot 0 and
  the window then has the average (40, -80, 120); the code reports (4, -8, 12), a fifth
  of the one slot at the new cursor, because its summing loop ends after one round.
\<close>

theorem acquire_task_averages_one_slot:
  "map_option (\<lambda>s'. (avg_reading s', window_average (readings s')))
     (acquire_task heading \<lparr>mag_x = 60, mag_y = - 120, mag_z = 180\<rparr>
        ((main_init 7 101
           [\<lparr>mag_x = 10, mag_y = - 20, mag_z = 30\<rparr>, \<lparr>mag_x = 20, mag_y = - 40, mag_z = 60\<rparr>,
            \<lparr>mag_x = 30, mag_y = - 60, mag_z = 90\<rparr>, \<lparr>mag_x = 40, mag_y = - 80, mag_z = 120\<rparr>,
            \<lparr>mag_x = 50, mag_y = - 100, mag_z = 150\<rparr>])\<lparr>acquire_mag_counter := 3\<rparr>))
   = Some (\<lparr>mag_x = 4, mag_y = - 8, mag_z = 12\<rparr>, \<lparr>mag_x = 40, mag_y = - 80, mag_z = 120\<rparr>)"
  by (simp add: acquire_task_def main_init_def sum_loop.simps [of _ 1] window_average_def
        add_reading_def zero_reading_def c_div_def Let_def)

subsection \<open>C3: the input ring buffer holds nine bytes\<close>



text \<open>
  C3. For the input ring buffer, of capacity 10, starting from an empty state (read index
  equal to write index, anywhere in the array): nine consecutive pushes of the receive
  interrupt succeed, each one finding the buffer not full and storing its byte; the
  tenth finds it full and leaves the buffer, indices and contents, unchanged; after the
  main loop has consumed one byte, one more push succeeds.
\<close>

theorem input_ring_capacity:
  assumes "rb_ok cb" and "len cb = INPUT_BUFF_LEN" and "read cb = write cb"
    and "length cs = 9"
  shows "(\<forall>k<9. \<exists>cbk. U1RXInterrupt cb (take k cs) = Some cbk \<and> \<not> rx_full cbk
                   \<and> queued cbk = take k cs)
       \<and> (\<exists>cb9. U1RXInterrupt cb cs = Some cb9 \<and> queued cb9 = cs
              \<and> rx_full cb9 \<and> rx_char cb9 c = Some cb9
              \<and> read cb9 \<noteq> write cb9
              \<and> \<not> rx_full (input_consume cb9)
              \<and> (\<exists>cb'. rx_char (input_consume cb9) c = Some cb' \<and> queued cb' = tl cs @ [c]))"
proof -
  have u0: "used cb = 0" using assms(1,3) used_empty_iff by simp
  then have q0: "queued cb = []" using length_queued [of cb] by simp
  have pre: "\<exists>cbk. U1RXInterrupt cb (take k cs) = Some cbk \<and> \<not> rx_full cbk \<and> queued cbk = take k cs"
    if kl: "k < 9" for k
  proof -
    obtain cbk where k: "U1RXInterrupt cb (take k cs) = Some cbk" "rb_ok cbk" "len cbk = INPUT_BUFF_LEN"
        "queued cbk = take k cs"
      using U1RXInterrupt_room [OF assms(1,2), of "take k cs"] u0 q0 kl assms(4) by auto
    have "used cbk = k" using length_queued [of cbk] k(4) assms(4) kl by simp
    then have "\<not> rx_full cbk" using rx_full_iff [OF k(2,3)] kl by simp
    with k show ?thesis by blast
  qed
  obtain cb9 where n: "U1RXInterrupt cb cs = Some cb9" "rb_ok cb9" "len cb9 = INPUT_BUFF_LEN"
      "queued cb9 = cs"
    using U1RXInterrupt_room [OF assms(1,2), of cs] u0 q0 assms(4) by auto
  have u9: "used cb9 = 9" using length_queued [of cb9] n(4) assms(4) by simp
  then have full: "rx_full cb9" using rx_full_iff [OF n(2,3)] by simp
  have same: "rx_char cb9 c = Some cb9"
    using rx_char_try_push [OF n(2,3), of c] try_push_full [OF n(2), of c] u9 n(3) by simp
  have ne: "read cb9 \<noteq> write cb9" using used_empty_iff [OF n(2)] u9 by simp
  note ic = input_consume_queued [OF n(2,3) ne]
  have u8: "used (input_consume cb9) = 8" using ic(4) u9 by simp
  then have nf: "\<not> rx_full (input_consume cb9)" using rx_full_iff [OF ic(1,2)] by simp
  have room: "used (input_consume cb9) < len (input_consume cb9) - 1"
    using u8 ic(2) by simp
  have "queued (input_consume cb9) = tl cs" using ic(3) n(4) by (metis list.sel(3))
  then have "rx_char (input_consume cb9) c = Some (try_push (input_consume cb9) c)
      \<and> queued (try_push (input_consume cb9) c) = tl cs @ [c]"
    using rx_char_try_push [OF ic(1,2), of c] try_push_room(2) [OF ic(1) room, of c] by simp
  with n full same ne nf pre show ?thesis by blast
qed

text \<open>Witness for C3: nine bytes pushed into the buffer as \<^verbatim>\<open>main.c\<close> defines it.\<close>

theorem input_ring_capacity_witness:
  "rb_ok UART_input_buff_init \<and> len UART_input_buff_init = INPUT_BUFF_LEN
   \<and> read UART_input_buff_init = write UART_input_buff_init
   \<and> length ''$RATE,10*'' = 9
   \<and> (\<exists>cb9. U1RXInterrupt UART_input_buff_init ''$RATE,10*'' = Some cb9
          \<and> queued cb9 = ''$RATE,10*''
          \<and> rx_full cb9 \<and> rx_char cb9 CHR ''$'' = Some cb9
          \<and> read cb9 \<noteq> write cb9
          \<and> \<not> rx_full (input_consume cb9)
          \<and> (\<exists>cb'. rx_char (input_consume cb9) CHR ''$'' = Some cb'
                 \<and> queued cb' = tl ''$RATE,10*'' @ [CHR ''$'']))"
proof -
  have h: "rb_ok UART_input_buff_init" "len UART_input_buff_init = INPUT_BUFF_LEN"
      "read UART_input_buff_init = write UART_input_buff_init" "length ''$RATE,10*'' = 9"
    by (simp_all add: rb_ok_def UART_input_buff_init_def)
  from input_ring_capacity [OF h, of "CHR ''$''"] h show ?thesis by blast
qed

subsection \<open>C4: the RATE command\<close>

text \<open>
  C4, as amended. Whenever a call of \<^verbatim>\<open>parse_byte\<close> in the main loop completes a frame
  whose type is \<^verbatim>\<open>RATE\<close>, \<^verbatim>\<open>extract_integer\<close> reads a value \<open>rate\<close> from its
  payload, and: if \<open>rate\<close> is one of 0, 1, 2, 4, 5, 10 it becomes the telemetry rate and
  nothing is sent; otherwise \<^verbatim>\<open>$ERR,1*\<close> is handed to \<^verbatim>\<open>print_to_buff\<close> for the output
  buffer and the telemetry rate is unchanged. \<^verbatim>\<open>print_to_buff\<close> queues the bytes of
  the frame behind what the buffer holds up to its free slots: all seven whenever seven
  slots are free, and otherwise as many of the first bytes as there are free slots, none
  on a full buffer.
\<close>

theorem rate_command_handled:
  assumes "parse_byte (pstate s) byte = Some (ps, NEW_MESSAGE)"
    and "c_str (msg_type ps) = Some ''RATE''"
  shows "\<exists>rate. extract_integer (msg_payload ps) = Some rate
       \<and> (rate \<in> {0, 1, 2, 4, 5, 10} \<longrightarrow>
            handle_byte s byte = Some (s\<lparr>pstate := ps, print_mag_rate := rate\<rparr>, []))
       \<and> (rate \<notin> {0, 1, 2, 4, 5, 10} \<longrightarrow>
            (\<exists>s'. handle_byte s byte = Some (s', [''$ERR,1*''])
                 \<and> print_mag_rate s' = print_mag_rate s
                 \<and> UART_output_buff s' = print_to_buff ''$ERR,1*'' (UART_output_buff s)
                 \<and> (rb_ok (UART_output_buff s)
                      \<and> used (UART_output_buff s) + 7 < len (UART_output_buff s) \<longrightarrow>
                     queued (UART_output_buff s') = queued (UART_output_buff s) @ ''$ERR,1*'')
                 \<and> (rb_ok (UART_output_buff s) \<longrightarrow>
                     queued (UART_output_buff s') =
                       queued (UART_output_buff s)
                       @ take (len (UART_output_buff s) - 1 - used (UART_output_buff s))
                           ''$ERR,1*'')))"
proof -
  obtain rate where r: "extract_integer (msg_payload ps) = Some rate"
    using extract_integer_terminated [OF parse_byte_message_terminated [OF assms(1)]] ..
  note hb = handle_byte_rate_message [OF assms r]
  have "queued (print_to_buff ''$ERR,1*'' (UART_output_buff s)) = queued (UART_output_buff s) @ ''$ERR,1*''"
    if "rb_ok (UART_output_buff s) \<and> used (UART_output_buff s) + 7 < len (UART_output_buff s)"
    using print_to_buff_room [of "UART_output_buff s" "''$ERR,1*''"] that by simp
  moreover have "queued (print_to_buff ''$ERR,1*'' (UART_output_buff s)) =
      queued (UART_output_buff s)
      @ take (len (UART_output_buff s) - 1 - used (UART_output_buff s)) ''$ERR,1*''"
    if "rb_ok (UART_output_buff s)"
    using that by (rule print_to_buff_take)
  ultimately show ?thesis using hb r by auto
qed

text \<open>Witness for C4: the frames \<^verbatim>\<open>$RATE,3*\<close> and \<^verbatim>\<open>$RATE,10*\<close> handled from the
  initial state, where the rate is 5 and the output buffer is empty.\<close>

theorem rate_command_handled_witness:
  "(\<exists>s'. handle_bytes (main_init 7 101 []) (frame ''RATE'' ''3'') = Some (s', [''$ERR,1*''])
        \<and> print_mag_rate s' = 5
        \<and> queued (UART_output_buff s') = ''$ERR,1*'')
   \<and> (\<exists>s'. handle_bytes (main_init 7 101 []) (frame ''RATE'' ''10'') = Some (s', [])
        \<and> print_mag_rate s' = 10
        \<and> UART_output_buff s' = UART_output_buff_init)"
proof -
  let ?s = "main_init 7 101 []"
  have h: "state (pstate ?s) = STATE_DOLLAR" "4 < length (msg_type (pstate ?s))"
    by (simp_all add: main_init_def parser_init_def)
  have ob: "rb_ok (UART_output_buff ?s) \<and> used (UART_output_buff ?s) + 7 < len (UART_output_buff ?s)"
    by (simp add: main_init_def UART_output_buff_init_def rb_ok_def used_def)
  have q0: "queued (UART_output_buff ?s) = []" "print_mag_rate ?s = 5"
      "UART_output_buff ?s = UART_output_buff_init"
    by (simp_all add: main_init_def UART_output_buff_init_def queued_def used_def)
  have v3: "extract_integer (''3'' @ [NUL]) = Some 3" "(3::int) \<notin> {0, 1, 2, 4, 5, 10}"
    and v10: "extract_integer (''10'' @ [NUL]) = Some 10" "(10::int) \<in> {0, 1, 2, 4, 5, 10}"
    by (simp_all add: extract_integer_def int16_def char_val_def)
  have p: "payload_text ''3''" "length ''3'' \<le> 100" "length ''3'' < length (msg_payload (pstate ?s))"
      "payload_text ''10''" "length ''10'' \<le> 100" "length ''10'' < length (msg_payload (pstate ?s))"
    by (simp_all add: payload_text_def main_init_def parser_init_def)
  obtain ps1 ps' where a: "parse_byte ps1 CHR ''*'' = Some (ps', NEW_MESSAGE)"
      "c_str (msg_type ps') = Some ''RATE''" "extract_integer (msg_payload ps') = Some 3"
      "handle_bytes ?s (frame ''RATE'' ''3'') = handle_byte (?s\<lparr>pstate := ps1\<rparr>) CHR ''*''"
    using handle_bytes_rate_frame [OF h(1) p(1,2) h(2) p(3)] v3(1) by auto
  have a1: "parse_byte (pstate (?s\<lparr>pstate := ps1\<rparr>)) CHR ''*'' = Some (ps', NEW_MESSAGE)"
    using a(1) by simp
  obtain qs1 qs' where b: "parse_byte qs1 CHR ''*'' = Some (qs', NEW_MESSAGE)"
      "c_str (msg_type qs') = Some ''RATE''" "extract_integer (msg_payload qs') = Some 10"
      "handle_bytes ?s (frame ''RATE'' ''10'') = handle_byte (?s\<lparr>pstate := qs1\<rparr>) CHR ''*''"
    using handle_bytes_rate_frame [OF h(1) p(4,5) h(2) p(6)] v10(1) by auto
  have b1: "parse_byte (pstate (?s\<lparr>pstate := qs1\<rparr>)) CHR ''*'' = Some (qs', NEW_MESSAGE)"
    using b(1) by simp
  have first: "\<exists>s'. handle_bytes ?s (frame ''RATE'' ''3'') = Some (s', [''$ERR,1*''])
        \<and> print_mag_rate s' = 5 \<and> queued (UART_output_buff s') = ''$ERR,1*''"
    using rate_command_handled [OF a1 a(2)] a(3) v3(2) ob q0 a(4) by auto
  have second: "\<exists>s'. handle_bytes ?s (frame ''RATE'' ''10'') = Some (s', [])
        \<and> print_mag_rate s' = 10 \<and> UART_output_buff s' = UART_output_buff_init"
    using rate_command_handled [OF b1 b(2)] b(3) v10(2) q0 b(4) by auto
  from first second show ?thesis by blast
qed

text \<open>
  Counterexample to C4 as stated: from the initial state, where the output buffer is
  empty, the frame \<^verbatim>\<open>$RATE,3*\<close> seven and eight times in a row, while the transmitter
  takes no byte. Every frame is rejected, with \<^verbatim>\<open>$ERR,1*\<close> handed to
  \<^verbatim>\<open>print_to_buff\<close> and the rate left at 5. The output buffer holds 47 bytes: of the
  seventh error frame only the five bytes \<^verbatim>\<open>$ERR,\<close> are queued, and of the eighth none.
\<close>

theorem error_frame_not_queued_when_output_full:
  "map_option (\<lambda>(s', msgs). (msgs, print_mag_rate s', used (UART_output_buff s'),
        queued (UART_output_buff s')))
     (handle_bytes (main_init 7 101 []) (concat (replicate 7 (frame ''RATE'' ''3''))))
   = Some (replicate 7 ''$ERR,1*'', 5, 47,
        ''$ERR,1*$ERR,1*$ERR,1*$ERR,1*$ERR,1*$ERR,1*$ERR,'')
   \<and> map_option (\<lambda>(s', msgs). (msgs, print_mag_rate s', used (UART_output_buff s'),
        queued (UART_output_buff s')))
     (handle_bytes (main_init 7 101 []) (concat (replicate 8 (frame ''RATE'' ''3''))))
   = Some (replicate 8 ''$ERR,1*'', 5, 47,
        ''$ERR,1*$ERR,1*$ERR,1*$ERR,1*$ERR,1*$ERR,1*$ERR,'')"
  by code_simp

subsection \<open>C5: an oversized type token is dropped and the parser recovers\<close>

text \<open>
  C5, as amended. From any state in \<open>STATE_DOLLAR\<close>, a dollar sign followed by six
  characters of type and a seventh byte that is not a comma makes the parser give up the
  frame: every call returns \<open>NO_MESSAGE\<close>, the parser is back in \<open>STATE_DOLLAR\<close> with
  \<open>index_type = 0\<close>, and it stays there over any further bytes without a dollar sign.
  The frame fed afterwards is accepted with its type and payload, whatever the abort left
  in the arrays: a frame \<^verbatim>\<open>$T,P*\<close> with \<open>|T| \<le> 6\<close> and \<open>|P| \<le> 100\<close>, or a frame
  \<^verbatim>\<open>$T*\<close> with \<open>|T| \<le> 5\<close>.
\<close>

theorem oversized_type_aborts_then_recovers:
  assumes "state ps = STATE_DOLLAR"
    and "length J = 6" and "CHR '','' \<notin> set J" and "CHR ''*'' \<notin> set J" and "b \<noteq> CHR '',''"
    and "CHR ''$'' \<notin> set G"
    and "6 \<le> length (msg_type ps)"
    and "type_token T" and "length T < length (msg_type ps)"
  shows "(\<exists>ps1. feed ps (CHR ''$'' # J @ b # G) = Some (ps1, replicate (length G + 8) NO_MESSAGE)
            \<and> state ps1 = STATE_DOLLAR \<and> index_type ps1 = 0)
       \<and> (payload_text P \<and> length T \<le> 6 \<and> length P \<le> 100 \<and> length P < length (msg_payload ps) \<longrightarrow>
           (\<exists>ps'. feed ps ((CHR ''$'' # J @ b # G) @ frame T P) =
                    Some (ps', replicate (length G + 8 + (length T + length P + 2)) NO_MESSAGE @ [NEW_MESSAGE])
                 \<and> c_str (msg_type ps') = Some T \<and> c_str (msg_payload ps') = Some P))
       \<and> (length T \<le> 5 \<and> 0 < length (msg_payload ps) \<longrightarrow>
           (\<exists>ps'. feed ps ((CHR ''$'' # J @ b # G) @ frame_no_payload T) =
                    Some (ps', replicate (length G + 8 + (length T + 1)) NO_MESSAGE @ [NEW_MESSAGE])
                 \<and> c_str (msg_type ps') = Some T \<and> c_str (msg_payload ps') = Some []))"
proof -
  obtain ps1 where ab: "feed ps (CHR ''$'' # J @ b # G) = Some (ps1, replicate (length G + 8) NO_MESSAGE)"
    and ps1: "state ps1 = STATE_DOLLAR" "index_type ps1 = 0"
      "length (msg_type ps1) = length (msg_type ps)" "msg_payload ps1 = msg_payload ps"
    using feed_oversized_type [OF assms(1-7)] by blast
  have first: "\<exists>ps1. feed ps (CHR ''$'' # J @ b # G) = Some (ps1, replicate (length G + 8) NO_MESSAGE)
            \<and> state ps1 = STATE_DOLLAR \<and> index_type ps1 = 0"
    using ab ps1 by blast
  have second: "\<exists>ps'. feed ps ((CHR ''$'' # J @ b # G) @ frame T P) =
                    Some (ps', replicate (length G + 8 + (length T + length P + 2)) NO_MESSAGE @ [NEW_MESSAGE])
                 \<and> c_str (msg_type ps') = Some T \<and> c_str (msg_payload ps') = Some P"
    if cond: "payload_text P \<and> length T \<le> 6 \<and> length P \<le> 100 \<and> length P < length (msg_payload ps)"
  proof -
    obtain ps' where "feed ps1 (frame T P) =
          Some (ps', replicate (length T + length P + 2) NO_MESSAGE @ [NEW_MESSAGE])"
      and "c_str (msg_type ps') = Some T" and "c_str (msg_payload ps') = Some P"
      using feed_frame [of ps1 T P] cond assms(8,9) ps1 by auto
    with feed_then [OF ab] show ?thesis by blast
  qed
  have third: "\<exists>ps'. feed ps ((CHR ''$'' # J @ b # G) @ frame_no_payload T) =
                    Some (ps', replicate (length G + 8 + (length T + 1)) NO_MESSAGE @ [NEW_MESSAGE])
                 \<and> c_str (msg_type ps') = Some T \<and> c_str (msg_payload ps') = Some []"
    if cond: "length T \<le> 5 \<and> 0 < length (msg_payload ps)"
  proof -
    obtain ps' where "feed ps1 (frame_no_payload T) =
          Some (ps', replicate (length T + 1) NO_MESSAGE @ [NEW_MESSAGE])"
      and "c_str (msg_type ps') = Some T" and "c_str (msg_payload ps') = Some []"
      using feed_frame_no_payload [of ps1 T] cond assms(8,9) ps1 by auto
    with feed_then [OF ab] show ?thesis by blast
  qed
  from first second third show ?thesis by blast
qed

text \<open>Witness for C5: the token \<^verbatim>\<open>TOOLONG\<close> and two stray bytes, then a frame.\<close>

theorem oversized_type_aborts_then_recovers_witness:
  "(\<exists>ps1. feed (parser_init 7 101) (CHR ''$'' # ''TOOLON'' @ CHR ''G'' # ''xy'') =
            Some (ps1, replicate 10 NO_MESSAGE)
        \<and> state ps1 = STATE_DOLLAR \<and> index_type ps1 = 0)
   \<and> (\<exists>ps'. feed (parser_init 7 101) ((CHR ''$'' # ''TOOLON'' @ CHR ''G'' # ''xy'') @ frame ''RATE'' ''2'') =
            Some (ps', replicate 17 NO_MESSAGE @ [NEW_MESSAGE])
        \<and> c_str (msg_type ps') = Some ''RATE'' \<and> c_str (msg_payload ps') = Some ''2'')
   \<and> (\<exists>ps'. feed (parser_init 7 101) ((CHR ''$'' # ''TOOLON'' @ CHR ''G'' # ''xy'') @ frame_no_payload ''RATE'') =
            Some (ps', replicate 15 NO_MESSAGE @ [NEW_MESSAGE])
        \<and> c_str (msg_type ps') = Some ''RATE'' \<and> c_str (msg_payload ps') = Some [])"
proof -
  have h: "state (parser_init 7 101) = STATE_DOLLAR" "length ''TOOLON'' = 6"
      "CHR '','' \<notin> set ''TOOLON''" "CHR ''*'' \<notin> set ''TOOLON''" "CHR ''G'' \<noteq> CHR '',''"
      "CHR ''$'' \<notin> set ''xy''" "6 \<le> length (msg_type (parser_init 7 101))"
      "type_token ''RATE''" "length ''RATE'' < length (msg_type (parser_init 7 101))"
    by (simp_all add: parser_init_def type_token_def)
  have h2: "payload_text ''2'' \<and> length ''RATE'' \<le> 6 \<and> length ''2'' \<le> 100
      \<and> length ''2'' < length (msg_payload (parser_init 7 101))"
    by (simp add: payload_text_def parser_init_def)
  have h3: "length ''RATE'' \<le> 5 \<and> 0 < length (msg_payload (parser_init 7 101))"
    by (simp add: parser_init_def)
  have l: "length ''xy'' + 8 = 10" "10 + (length ''RATE'' + length ''2'' + 2) = 17"
      "10 + (length ''RATE'' + 1) = 15"
    by simp_all
  show ?thesis
    using oversized_type_aborts_then_recovers [OF h, of "''2''"] h2 h3 unfolding l by blast
qed

text \<open>
  Counterexample to C5 as stated: after the abort of \<^verbatim>\<open>$TOOLONG\<close>, the frame
  \<^verbatim>\<open>$ABCDEF*\<close>, whose type has six characters and which has no comma, is not accepted;
  no call returns \<open>NEW_MESSAGE\<close>. The reason is the one of C1, the order of the tests in
  \<open>STATE_TYPE\<close>, and not a residue of the abort.
\<close>

theorem six_char_type_after_abort_dropped:
  "map_option snd (feed (parser_init 7 101) ''$TOOLONG$ABCDEF*'') =
     Some [NO_MESSAGE, NO_MESSAGE, NO_MESSAGE, NO_MESSAGE, NO_MESSAGE, NO_MESSAGE, NO_MESSAGE, NO_MESSAGE,
           NO_MESSAGE, NO_MESSAGE, NO_MESSAGE, NO_MESSAGE, NO_MESSAGE, NO_MESSAGE, NO_MESSAGE, NO_MESSAGE]"
  by (simp add: parser_init_def parse_byte_def store_def)

subsection \<open>C6: when the magnetometer frame is sent\<close>




subsection \<open>C7: extract\_integer reads a signed decimal number\<close>

text \<open>
  C7, as amended. For a string of decimal digits whose value is at most 32767, followed
  by a comma or by the NUL that ends the string, \<^verbatim>\<open>extract_integer\<close> returns that value;
  with a leading plus sign it returns the same value, and with a leading minus sign its
  negation. In particular \<^verbatim>\<open>"123"\<close> yields 123, \<^verbatim>\<open>"-45"\<close> yields -45 and \<^verbatim>\<open>"+7"\<close>
  yields 7.
\<close>

theorem extract_integer_decimal:
  assumes "\<forall>c\<in>set ds. digit_char c" and "decimal_value ds \<le> 32767"
    and "t = CHR '','' \<or> t = NUL"
  shows "extract_integer (ds @ t # rest) = Some (decimal_value ds)
       \<and> extract_integer (CHR ''+'' # ds @ t # rest) = Some (decimal_value ds)
       \<and> extract_integer (CHR ''-'' # ds @ t # rest) = Some (- decimal_value ds)"
proof -
  have loop: "extract_loop (ds @ t # rest) 0 = Some (decimal_value ds)"
    using extract_loop_digits [OF assms(1) _ _ assms(3), of 0 rest] assms(2)
    by (simp add: decimal_value_def)
  have "0 \<le> decimal_value ds"
    using decimal_fold_mono [OF assms(1), of 0] by (simp add: decimal_value_def)
  with assms(2) have r: "int16 (decimal_value ds) = decimal_value ds"
      "int16 (- decimal_value ds) = - decimal_value ds"
    by (simp_all add: int16_in_range)
  have plain: "extract_integer (ds @ t # rest) = Some (decimal_value ds)"
  proof (cases ds)
    case Nil
    with assms(3) show ?thesis by (auto simp: extract_integer_def decimal_value_def int16_def)
  next
    case (Cons c cs)
    then have "digit_char c" using assms(1) by simp
    then have "c \<noteq> CHR ''-''" and "c \<noteq> CHR ''+''" by (rule digit_char_val)+
    with loop r Cons show ?thesis by (simp add: extract_integer_def)
  qed
  from loop r plain show ?thesis by (simp add: extract_integer_def)
qed

text \<open>Witness for C7: the three strings of the claim, and a payload of three fields.\<close>

theorem extract_integer_decimal_witness:
  "extract_integer (''123'' @ [NUL]) = Some 123
   \<and> extract_integer (''-45'' @ [NUL]) = Some (- 45)
   \<and> extract_integer (''+7'' @ [NUL]) = Some 7
   \<and> extract_integer ''10,20,30'' = Some 10"
proof -
  have d: "\<forall>c\<in>set ''123''. digit_char c" "\<forall>c\<in>set ''45''. digit_char c"
      "\<forall>c\<in>set ''7''. digit_char c" "\<forall>c\<in>set ''10''. digit_char c"
    by (simp_all add: digit_char_def)
  have v: "decimal_value ''123'' = 123" "decimal_value ''45'' = 45" "decimal_value ''7'' = 7"
      "decimal_value ''10'' = 10"
    by (simp_all add: decimal_value_def)
  have "extract_integer (''123'' @ NUL # []) = Some (decimal_value ''123'')"
    using extract_integer_decimal [OF d(1), of NUL "[]"] v by simp
  moreover have "extract_integer (CHR ''-'' # ''45'' @ NUL # []) = Some (- decimal_value ''45'')"
    using extract_integer_decimal [OF d(2), of NUL "[]"] v by simp
  moreover have "extract_integer (CHR ''+'' # ''7'' @ NUL # []) = Some (decimal_value ''7'')"
    using extract_integer_decimal [OF d(3), of NUL "[]"] v by simp
  moreover have "extract_integer (''10'' @ CHR '','' # ''20,30'') = Some (decimal_value ''10'')"
    using extract_integer_decimal [OF d(4), of "CHR '',''" "''20,30''"] v by simp
  ultimately show ?thesis using v by simp
qed

text \<open>
  Counterexample to C7 as stated: the digits \<^verbatim>\<open>40000\<close> have the value 40000, which no
  16-bit \<^verbatim>\<open>int\<close> holds; the accumulation \<^verbatim>\<open>number *= 10\<close> wraps around and the result
  is -25536. The digits of \<open>2 ^ 64\<close> give 0; they do so for an \<^verbatim>\<open>int\<close> of 16, 32 or 64
  bits alike.
\<close>

theorem extract_integer_overflow:
  "extract_integer (''40000'' @ [NUL]) = Some (- 25536) \<and> decimal_value ''40000'' = 40000
   \<and> extract_integer (''18446744073709551616'' @ [NUL]) = Some 0
   \<and> decimal_value ''18446744073709551616'' = 18446744073709551616"
  by (simp add: extract_integer_def int16_def char_val_def decimal_value_def)

subsection \<open>C8: the heading\<close>

text \<open>
  C8 is not stated here. The heading is the value of the floating-point expression
  \<^verbatim>\<open>(int) (180.0 * atan2((float) y, (float) x) / M_PI)\<close>: it depends on the rounding
  of the conversions, of the library's \<^verbatim>\<open>atan2\<close> and of the division, none of which
  the integer model describes. The acquisition task takes it as the parameter
  \<open>heading\<close>.
\<close>

subsection \<open>C9: a RATE frame without payload\<close>

text \<open>
  C9. When the input buffer holds a RATE frame with an empty payload, \<^verbatim>\<open>$RATE,*\<close> or
  \<^verbatim>\<open>$RATE*\<close>, and the parser is in \<open>STATE_DOLLAR\<close>, the loop that drains the buffer
  returns with the telemetry rate set to 0: the parser holds the type \<^verbatim>\<open>RATE\<close>,
  \<^verbatim>\<open>extract_integer\<close> reads 0 from the empty payload and 0 is a valid rate. Nothing is handed to \<^verbatim>\<open>print_to_buff\<close>, the output
  buffer is unchanged, and with this rate the magnetometer task sends nothing.
\<close>

theorem empty_rate_payload_disables_mag:
  assumes "state (pstate s) = STATE_DOLLAR"
    and "4 < length (msg_type (pstate s))" and "0 < length (msg_payload (pstate s))"
    and "rb_ok (UART_input_buff s)" and "len (UART_input_buff s) = INPUT_BUFF_LEN"
    and "queued (UART_input_buff s) = frame ''RATE'' [] \<or>
         queued (UART_input_buff s) = frame_no_payload ''RATE''"
  shows "\<exists>s'. drain s = Some (s', [])
           \<and> c_str (msg_type (pstate s')) = Some ''RATE''
           \<and> extract_integer (msg_payload (pstate s')) = Some 0
           \<and> print_mag_rate s' = 0
           \<and> UART_output_buff s' = UART_output_buff s
           \<and> mag_print_task s' = Some (s', [])"
proof -
  have "\<exists>ps1 ps'. parse_byte ps1 CHR ''*'' = Some (ps', NEW_MESSAGE)
           \<and> c_str (msg_type ps') = Some ''RATE''
           \<and> extract_integer (msg_payload ps') = Some 0
           \<and> handle_bytes s (queued (UART_input_buff s)) = handle_byte (s\<lparr>pstate := ps1\<rparr>) CHR ''*''"
  proof (cases "queued (UART_input_buff s) = frame ''RATE'' []")
    case True
    have "payload_text []" by (simp add: payload_text_def)
    from handle_bytes_rate_frame [OF assms(1) this _ assms(2)] assms(3) True
    show ?thesis by (simp add: extract_integer_empty)
  next
    case False
    with assms(6) have "queued (UART_input_buff s) = frame_no_payload ''RATE''" by simp
    with handle_bytes_rate_frame_no_payload [OF assms(1,2,3)]
    show ?thesis by (simp add: extract_integer_empty)
  qed
  then obtain ps1 ps' where a: "parse_byte ps1 CHR ''*'' = Some (ps', NEW_MESSAGE)"
      "c_str (msg_type ps') = Some ''RATE''" "extract_integer (msg_payload ps') = Some 0"
      "handle_bytes s (queued (UART_input_buff s)) = handle_byte (s\<lparr>pstate := ps1\<rparr>) CHR ''*''"
    by blast
  have "parse_byte (pstate (s\<lparr>pstate := ps1\<rparr>)) CHR ''*'' = Some (ps', NEW_MESSAGE)"
    using a(1) by simp
  from handle_byte_rate_message [OF this a(2,3)]
  have "handle_bytes s (queued (UART_input_buff s)) = Some (s\<lparr>pstate := ps', print_mag_rate := 0\<rparr>, [])"
    using a(4) by simp
  then have "drain s = Some (s\<lparr>pstate := ps', print_mag_rate := 0,
      UART_input_buff := (UART_input_buff s)\<lparr>read := write (UART_input_buff s)\<rparr>\<rparr>, [])"
    using drain_handle_bytes [OF assms(4,5)] by simp
  then show ?thesis using a(2,3) by (simp add: mag_print_task_disabled)
qed

text \<open>Witness for C9: the receive interrupt stores \<^verbatim>\<open>$RATE,*\<close> in the input buffer
  of the initial state, and the loop drains it.\<close>

theorem empty_rate_payload_disables_mag_witness:
  "\<exists>s0 s'. interrupts \<lparr>sample = zero_reading, rx_bytes = frame ''RATE'' [], tx_room = 0\<rparr>
              (main_init 7 101 []) = Some s0
         \<and> queued (UART_input_buff s0) = ''$RATE,*''
         \<and> drain s0 = Some (s', []) \<and> print_mag_rate s' = 0
         \<and> UART_output_buff s' = UART_output_buff_init
         \<and> mag_print_task s' = Some (s', [])"
proof -
  let ?s = "main_init 7 101 []"
  have e: "UART_input_buff ?s = UART_input_buff_init"
    by (simp add: main_init_def)
  have ib: "rb_ok UART_input_buff_init" "len UART_input_buff_init = INPUT_BUFF_LEN"
      "used UART_input_buff_init + length (frame ''RATE'' []) \<le> 9"
      "queued UART_input_buff_init = []"
    by (simp_all add: UART_input_buff_init_def rb_ok_def used_def queued_def frame_def)
  obtain cb where cb: "U1RXInterrupt UART_input_buff_init (frame ''RATE'' []) = Some cb"
      "rb_ok cb" "len cb = INPUT_BUFF_LEN" "queued cb = frame ''RATE'' []"
    using U1RXInterrupt_room [OF ib(1,2,3)] ib(4) by auto
  let ?t = "?s\<lparr>UART_input_buff := cb\<rparr>"
  have i: "interrupts \<lparr>sample = zero_reading, rx_bytes = frame ''RATE'' [], tx_room = 0\<rparr> ?s = Some ?t"
    by (simp add: interrupts_def e cb(1))
  have h: "state (pstate ?t) = STATE_DOLLAR" "4 < length (msg_type (pstate ?t))"
      "0 < length (msg_payload (pstate ?t))" "rb_ok (UART_input_buff ?t)"
      "len (UART_input_buff ?t) = INPUT_BUFF_LEN"
      "queued (UART_input_buff ?t) = frame ''RATE'' [] \<or>
         queued (UART_input_buff ?t) = frame_no_payload ''RATE''"
    using cb by (simp_all add: main_init_def parser_init_def)
  have o: "UART_output_buff ?t = UART_output_buff_init"
    by (simp add: main_init_def)
  have q: "queued (UART_input_buff ?t) = ''$RATE,*''"
    using cb(4) by (simp add: frame_def)
  from empty_rate_payload_disables_mag [OF h] i o q show ?thesis by metis
qed

subsection \<open>C10: the indices stay within their limits\<close>

text \<open>
  C10. In every parser state with \<open>index_type \<le> 6\<close> and \<open>index_payload \<le> 100\<close>, after
  any single call of \<^verbatim>\<open>parse_byte\<close> both bounds still hold, every store of that call
  into the type array is at an index \<open>\<le> 6\<close> and every store into the payload array at
  an index \<open>\<le> 100\<close>. The call is defined whenever the arrays have at least 7 and 101
  elements.
\<close>

theorem parse_byte_index_bounds:
  assumes "index_type ps \<le> 6" and "index_payload ps \<le> 100"
  shows "(\<forall>ps' st. parse_byte ps byte = Some (ps', st) \<longrightarrow>
            index_type ps' \<le> 6 \<and> index_payload ps' \<le> 100)
       \<and> (\<forall>i c. Type_store i c \<in> set (parse_byte_stores ps byte) \<longrightarrow> i \<le> 6)
       \<and> (\<forall>i c. Payload_store i c \<in> set (parse_byte_stores ps byte) \<longrightarrow> i \<le> 100)
       \<and> (7 \<le> length (msg_type ps) \<and> 101 \<le> length (msg_payload ps) \<longrightarrow>
            parse_byte ps byte \<noteq> None)"
  using assms
  by (cases "state ps")
     (auto simp: parse_byte_def parse_byte_stores_def store_def split: bind_splits if_splits)

text \<open>Witness for C10: the call that stores at the largest type index, a comma after
  six characters of type.\<close>

theorem parse_byte_index_bounds_witness:
  "index_type ((parser_init 7 101)\<lparr>state := STATE_TYPE, index_type := 6\<rparr>) \<le> 6
   \<and> index_payload ((parser_init 7 101)\<lparr>state := STATE_TYPE, index_type := 6\<rparr>) \<le> 100
   \<and> parse_byte_stores ((parser_init 7 101)\<lparr>state := STATE_TYPE, index_type := 6\<rparr>) CHR '',''
       = [Type_store 6 NUL]
   \<and> parse_byte ((parser_init 7 101)\<lparr>state := STATE_TYPE, index_type := 6\<rparr>) CHR '','' \<noteq> None"
proof -
  let ?ps = "(parser_init 7 101)\<lparr>state := STATE_TYPE, index_type := 6\<rparr>"
  have h1: "index_type ?ps \<le> 6" and h2: "index_payload ?ps \<le> 100"
    by (simp_all add: parser_init_def)
  have h3: "7 \<le> length (msg_type ?ps) \<and> 101 \<le> length (msg_payload ?ps)"
    by (simp add: parser_init_def)
  have st: "parse_byte_stores ?ps CHR '','' = [Type_store 6 NUL]"
    by (simp add: parse_byte_stores_def parser_init_def)
  from parse_byte_index_bounds [OF h1 h2, of "CHR '',''"] h3
  have "parse_byte ?ps CHR '','' \<noteq> None"
    by blast
  with h1 h2 st show ?thesis by blast
qed

end
